theory Spec2Isabelle
  imports Complex_Main "HOL-Library.Product_Lexorder" "HOL-Library.AList"
begin

section \<open>Data model of the SFR dataset (sfrmaker/sfrdata.py, class SFRData)\<close>

text \<open>
  The two pandas tables of an \<open>SFRData\<close> instance are lists of rows, in table order.
  Only the columns that the routing methods read or write are kept; integer columns
  (dtype \<open>np.int\<close>) are \<open>int\<close>, floating point columns are \<open>real\<close>.
  The reach table's own \<open>outseg\<close> column is called \<open>rd_outseg\<close>, since a record
  field name cannot be used by two records.
\<close>

record reach =
  rno :: int
  node :: int
  iseg :: int
  ireach :: int
  rchlen :: real
  strtop :: real
  slope :: real
  outreach :: int
  rd_outseg :: int
  line_id :: int

record segment =
  per :: int
  nseg :: int
  outseg :: int

text \<open>Exceptions that the modelled methods raise, as values.\<close>

datatype error =
  AssertionError | KeyError | ValueError | AttributeError | TypeError | RoutingError | CycleError

text \<open>
  A Python dictionary that is stored, compared or iterated is the list of its items in
  insertion order, with unique keys.
\<close>

type_synonym ('k, 'v) dict = "('k \<times> 'v) list"

text \<open>
  The instance: both tables and the private routing caches. A cache that holds
  \<open>None\<close> in Python is \<open>None\<close> here. The leading underscore of a private attribute
  is written \<open>priv\<close>: \<open>priv_segment_routing\<close> is \<open>_segment_routing\<close>, and
  \<open>priv_routing\<close> is the attribute \<open>_routing\<close>, which does not exist until
  \<open>segment_routing\<close> has stored into it.
\<close>

record sfrdata =
  reach_data :: "reach list"
  segment_data :: "segment list"
  priv_segment_routing :: "(int, int) dict option"
  priv_routing :: "(int, int) dict option"
  priv_rno_routing :: "(int, int) dict option"
  priv_paths :: "(int, int list) dict option"
  priv_reach_paths :: "(int, int list) dict option"

section \<open>Dictionaries and exceptions\<close>

text \<open>
  \<open>dict(zip(keys, values))\<close> used for lookups only: a later pair overwrites an earlier
  one with the same key.
\<close>

definition dict_of :: "('k \<times> 'v) list \<Rightarrow> ('k \<rightharpoonup> 'v)" where
  "dict_of kvs = map_of (rev kvs)"

text \<open>\<open>d[k]\<close> raises \<open>KeyError\<close> on a missing key.\<close>

definition getitem :: "('k \<rightharpoonup> 'v) \<Rightarrow> 'k \<Rightarrow> error + 'v" where
  "getitem d k = (case d k of None \<Rightarrow> Inl KeyError | Some v \<Rightarrow> Inr v)"

text \<open>Sequencing of statements that may raise.\<close>

definition bind :: "error + 'a \<Rightarrow> ('a \<Rightarrow> error + 'b) \<Rightarrow> error + 'b" where
  "bind m f = (case m of Inl e \<Rightarrow> Inl e | Inr x \<Rightarrow> f x)"

text \<open>A list comprehension whose element expression may raise: the first raise wins.\<close>

fun map_err :: "('a \<Rightarrow> error + 'b) \<Rightarrow> 'a list \<Rightarrow> error + 'b list" where
  "map_err f [] = Inr []"
| "map_err f (x # xs) =
     (case f x of Inl e \<Rightarrow> Inl e
      | Inr y \<Rightarrow> (case map_err f xs of Inl e \<Rightarrow> Inl e | Inr ys \<Rightarrow> Inr (y # ys)))"

section \<open>repair\_outsegs\<close>

text \<open>
  \<^verbatim>\<open>
  isasegment = np.in1d(self.segment_data.outseg, self.segment_data.nseg)
  isasegment = isasegment | (self.segment_data.outseg < 0)
  self.segment_data.loc[~isasegment, 'outseg'] = 0
  \<close>
  The test runs over the rows of every stress period.
\<close>

definition isasegment :: "segment list \<Rightarrow> segment \<Rightarrow> bool" where
  "isasegment sd s = (outseg s \<in> set (map nseg sd) \<or> outseg s < 0)"

definition repair_outsegs_table :: "segment list \<Rightarrow> segment list" where
  "repair_outsegs_table sd =
     map (\<lambda>s. if \<not> isasegment sd s then s\<lparr>outseg := 0\<rparr> else s) sd"

definition repair_outsegs :: "sfrdata \<Rightarrow> sfrdata" where
  "repair_outsegs st = st\<lparr>segment_data := repair_outsegs_table (segment_data st)\<rparr>"

section \<open>get\_slopes\<close>

text \<open>
  \<^verbatim>\<open>
  rd = self.reach_data
  assert rd.outreach.sum() > 0, "requires reach routing, ..."
  elev = dict(zip(rd.rno, rd.strtop))
  dist = dict(zip(rd.rno, rd.rchlen))
  dnelev = {rid: elev[rd.outreach.values[i]] if rd.outreach.values[i] != 0
            else -9999 for i, rid in enumerate(rd.rno)}
  slopes = np.array(
      [(elev[i] - dnelev[i]) / dist[i] if dnelev[i] != -9999 and dist[i] > 0
       else default_slope for i in rd.rno])
  slopes[slopes < minimum_slope] = minimum_slope
  slopes[slopes > maximum_slope] = maximum_slope
  self.reach_data['slope'] = slopes
  \<close>
  Floating point numbers are modelled as reals: rounding, NaN and infinities are outside
  the model. The element expression of \<open>slopes\<close> is split in two: \<open>slope_term\<close>
  decides between the quotient and the default and returns the operands of the division
  (numerator and divisor) when the quotient is taken, and \<open>eval_term\<close> divides. The
  dictionary \<open>dist\<close> is named \<open>dist'\<close>.
\<close>


definition slope_term ::
  "(int \<rightharpoonup> real) \<Rightarrow> (int \<rightharpoonup> real) \<Rightarrow> (int \<rightharpoonup> real) \<Rightarrow> int
     \<Rightarrow> error + (real \<times> real) option" where
  "slope_term elev dnelev dist' i =
     bind (getitem dnelev i) (\<lambda>dn.
       if dn \<noteq> -9999 then
         bind (getitem dist' i) (\<lambda>d.
           if d > 0 then bind (getitem elev i) (\<lambda>e. Inr (Some (e - dn, d)))
           else Inr None)
       else Inr None)"

definition eval_term :: "real \<Rightarrow> (real \<times> real) option \<Rightarrow> real" where
  "eval_term default_slope t =
     (case t of Some (num, den) \<Rightarrow> num / den | None \<Rightarrow> default_slope)"

definition dnelev_items :: "(int \<rightharpoonup> real) \<Rightarrow> reach list \<Rightarrow> error + (int \<times> real) list" where
  "dnelev_items elev rd =
     map_err (\<lambda>r. if outreach r \<noteq> 0
                   then bind (getitem elev (outreach r)) (\<lambda>v. Inr (rno r, v))
                   else Inr (rno r, -9999)) rd"

definition slope_terms :: "reach list \<Rightarrow> error + (real \<times> real) option list" where
  "slope_terms rd =
     (let elev = dict_of (zip (map rno rd) (map strtop rd));
          dist' = dict_of (zip (map rno rd) (map rchlen rd))
      in bind (dnelev_items elev rd) (\<lambda>items.
           map_err (slope_term elev (dict_of items) dist') (map rno rd)))"

definition pre_clamp_slopes :: "real \<Rightarrow> reach list \<Rightarrow> error + real list" where
  "pre_clamp_slopes default_slope rd =
     bind (slope_terms rd) (\<lambda>ts. Inr (map (eval_term default_slope) ts))"

definition clip_below :: "real \<Rightarrow> real list \<Rightarrow> real list" where
  "clip_below minimum_slope slopes =
     map (\<lambda>x. if x < minimum_slope then minimum_slope else x) slopes"

definition clip_above :: "real \<Rightarrow> real list \<Rightarrow> real list" where
  "clip_above maximum_slope slopes =
     map (\<lambda>x. if x > maximum_slope then maximum_slope else x) slopes"

definition get_slopes_table ::
  "real \<Rightarrow> real \<Rightarrow> real \<Rightarrow> reach list \<Rightarrow> error + reach list" where
  "get_slopes_table default_slope minimum_slope maximum_slope rd =
     (if \<not> sum_list (map outreach rd) > 0 then Inl AssertionError
      else bind (pre_clamp_slopes default_slope rd) (\<lambda>slopes.
        Inr (map2 (\<lambda>r s. r\<lparr>slope := s\<rparr>) rd
               (clip_above maximum_slope (clip_below minimum_slope slopes)))))"

definition get_slopes :: "real \<Rightarrow> real \<Rightarrow> real \<Rightarrow> sfrdata \<Rightarrow> error + sfrdata" where
  "get_slopes default_slope minimum_slope maximum_slope st =
     bind (get_slopes_table default_slope minimum_slope maximum_slope (reach_data st))
       (\<lambda>rd. Inr (st\<lparr>reach_data := rd\<rparr>))"

unbundle bit_operations_syntax

section \<open>Python values of the staleness test\<close>

text \<open>
  The operands of \<^verbatim>\<open>segment_routing_changed & reach_routing_changed & ~consistent\<close>:
  Python \<open>bool\<close>, \<open>numpy.bool_\<close> and integers. On a Python \<open>bool\<close>, \<open>~\<close> is the
  integer complement (\<open>~True = -2\<close>, \<open>~False = -1\<close>) and \<open>&\<close> with an integer is
  the bitwise and; on a \<open>numpy.bool_\<close> they are logical.
\<close>

datatype pyval = PyBool bool | NpBool bool | PyInt int

fun truthy :: "pyval \<Rightarrow> bool" where
  "truthy (PyBool b) = b"
| "truthy (NpBool b) = b"
| "truthy (PyInt i) = (i \<noteq> 0)"

fun is_bool :: "pyval \<Rightarrow> bool" where
  "is_bool (PyInt i) = False"
| "is_bool v = True"

fun py_invert :: "pyval \<Rightarrow> pyval" where
  "py_invert (PyBool b) = PyInt (- (of_bool b) - 1)"
| "py_invert (NpBool b) = NpBool (\<not> b)"
| "py_invert (PyInt i) = PyInt (- i - 1)"

fun py_and :: "pyval \<Rightarrow> pyval \<Rightarrow> pyval" where
  "py_and (PyBool a) (PyBool b) = PyBool (a \<and> b)"
| "py_and (PyBool a) (NpBool b) = NpBool (a \<and> b)"
| "py_and (NpBool a) (PyBool b) = NpBool (a \<and> b)"
| "py_and (NpBool a) (NpBool b) = NpBool (a \<and> b)"
| "py_and (PyBool a) (PyInt i) = PyInt (of_bool a AND i)"
| "py_and (NpBool a) (PyInt i) = PyInt (of_bool a AND i)"
| "py_and (PyInt i) (PyBool b) = PyInt (i AND of_bool b)"
| "py_and (PyInt i) (NpBool b) = PyInt (i AND of_bool b)"
| "py_and (PyInt i) (PyInt j) = PyInt (i AND j)"

section \<open>Functions imported from sfrmaker.routing and sfrmaker.checks\<close>

text \<open>
  \<^verbatim>\<open>
  from sfrmaker.routing import find_path, renumber_segments
  from .checks import valid_rnos, valid_nsegs, rno_nseg_routing_consistent
  \<close>
  Neither module is among the source files. \<open>renumber_segments\<close>, \<open>find_path\<close> and
  \<open>rno_nseg_routing_consistent\<close> are parameters of the model, collected in one record
  that every method calling them takes as its first argument; each may raise.
\<close>

record lib =
  renumber_segments :: "int list \<Rightarrow> int list \<Rightarrow> error + (int, int) dict"
  find_path :: "(int, int) dict \<Rightarrow> int \<Rightarrow> error + int list"
  rno_nseg_routing_consistent ::
    "int list \<Rightarrow> int list \<Rightarrow> int list \<Rightarrow> int list \<Rightarrow> int list \<Rightarrow> int list \<Rightarrow> error + pyval"

text \<open>
  Modelled from the spec: \<open>valid_rnos\<close> of sfrmaker.checks, which is not among the
  source files. "True iff values, interpreted as a set, equal exactly
  \<open>{1, ..., len(values)}\<close> (no duplicates, no gaps, regardless of order)."
\<close>

definition valid_rnos :: "int list \<Rightarrow> bool" where
  "valid_rnos rnos = (set rnos = set [1..int (length rnos)])"

text \<open>
  Modelled from the spec: \<open>valid_nsegs\<close> of sfrmaker.checks, which is not among the
  source files. "True iff \<open>nseg\<close> is \<open>1..N\<close> dense; if \<open>increasing=True\<close>,
  additionally require every \<open>outseg\<close> (excluding sinks/lakes) to be strictly greater
  than its source \<open>nseg\<close>."
\<close>

definition valid_nsegs :: "int list \<Rightarrow> int list \<Rightarrow> bool \<Rightarrow> bool" where
  "valid_nsegs nsegs outsegs increasing =
     (set nsegs = set [1..int (length nsegs)]
      \<and> (increasing \<longrightarrow> list_all (\<lambda>(n, d). d > 0 \<longrightarrow> d > n) (zip nsegs outsegs)))"

section \<open>Stored dictionaries\<close>

text \<open>\<open>dict(zip(ks, vs))\<close>: a repeated key keeps its first position and its last value.\<close>

definition dict_update :: "('k, 'v) dict \<Rightarrow> ('k \<times> 'v) list \<Rightarrow> ('k, 'v) dict" where
  "dict_update d kvs = foldl (\<lambda>d (k, v). AList.update k v d) d kvs"

definition dict_zip :: "'k list \<Rightarrow> 'v list \<Rightarrow> ('k, 'v) dict" where
  "dict_zip ks vs = dict_update [] (zip ks vs)"

text \<open>
  \<open>d != cache\<close>, where the cache holds \<open>None\<close> or a dictionary: a dictionary differs
  from \<open>None\<close>, and two dictionaries differ when their item sets differ.
\<close>

definition dict_ne :: "('k, 'v) dict \<Rightarrow> ('k, 'v) dict option \<Rightarrow> bool" where
  "dict_ne d cache = (case cache of None \<Rightarrow> True | Some c \<Rightarrow> set d \<noteq> set c)"

text \<open>
  \<^verbatim>\<open>
  graph = dict(zip(sd.nseg, sd.outseg))
  outlets = set(graph.values()).difference(set(graph.keys()))  # including lakes
  graph.update({o: 0 for o in outlets})
  \<close>
  The outlets are appended in the order of their first occurrence among the values.
\<close>

definition routing_dict :: "int list \<Rightarrow> int list \<Rightarrow> (int, int) dict" where
  "routing_dict ks vs =
     (let graph = dict_zip ks vs;
          outlets = filter (\<lambda>v. v \<notin> set (map fst graph)) (remdups (map snd graph))
      in dict_update graph (map (\<lambda>out. (out, 0)) outlets))"

section \<open>Sorting the tables\<close>

text \<open>
  \<open>sort_values(by=[..., ...], inplace=True)\<close> on two columns is a stable sort on the
  pair of the columns, ordered lexicographically.
\<close>

definition sort_reaches :: "reach list \<Rightarrow> reach list" where
  "sort_reaches rd = sort_key (\<lambda>r. (iseg r, ireach r)) rd"

definition sort_segments :: "segment list \<Rightarrow> segment list" where
  "sort_segments sd = sort_key (\<lambda>s. (per s, nseg s)) sd"

text \<open>\<open>self.segment_data.groupby('per').get_group(0)\<close> raises \<open>KeyError\<close> when no row has period 0.\<close>

definition get_group0 :: "segment list \<Rightarrow> error + segment list" where
  "get_group0 sd =
     (let g = filter (\<lambda>s. per s = 0) sd in if g = [] then Inl KeyError else Inr g)"

section \<open>\_routing\_changed\<close>

text \<open>
  \<^verbatim>\<open>
  sd = self.segment_data.groupby('per').get_group(0)
  rd = self.reach_data
  segment_routing = dict(zip(sd.nseg, sd.outseg))
  segment_routing_changed = segment_routing != self._segment_routing
  reach_routing = dict(zip(rd.rno, rd.outreach))
  reach_routing_changed = reach_routing != self._rno_routing
  consistent = rno_nseg_routing_consistent(sd.nseg, sd.outseg,
                                           rd.iseg, rd.ireach,
                                           rd.rno, rd.outreach)
  return segment_routing_changed & reach_routing_changed & ~consistent
  \<close>
\<close>

definition routing_changed :: "lib \<Rightarrow> sfrdata \<Rightarrow> error + pyval" where
  "routing_changed lb st =
     bind (get_group0 (segment_data st)) (\<lambda>sd.
       let rd = reach_data st;
           segment_routing = dict_zip (map nseg sd) (map outseg sd);
           segment_routing_changed = PyBool (dict_ne segment_routing (priv_segment_routing st));
           reach_routing = dict_zip (map rno rd) (map outreach rd);
           reach_routing_changed = PyBool (dict_ne reach_routing (priv_rno_routing st))
       in bind (rno_nseg_routing_consistent lb (map nseg sd) (map outseg sd)
                  (map iseg rd) (map ireach rd) (map rno rd) (map outreach rd))
            (\<lambda>consistent.
               Inr (py_and (py_and segment_routing_changed reach_routing_changed)
                      (py_invert consistent))))"

section \<open>segment\_routing\<close>

text \<open>
  \<^verbatim>\<open>
  if self._segment_routing is None or self._routing_changed():
      sd = self.segment_data.groupby('per').get_group(0)
      graph = dict(zip(sd.nseg, sd.outseg))
      outlets = set(graph.values()).difference(set(graph.keys()))
      graph.update({o: 0 for o in outlets})
      self._routing = graph
  return self._routing
  \<close>
  The accessor returns the dictionary and the instance, whose \<open>_routing\<close> it may have set.
  \<open>or\<close> does not evaluate \<open>_routing_changed()\<close> when the cache is \<open>None\<close>.
\<close>

definition segment_routing :: "lib \<Rightarrow> sfrdata \<Rightarrow> error + ((int, int) dict \<times> sfrdata)" where
  "segment_routing lb st =
     bind (if priv_segment_routing st = None then Inr True
           else bind (routing_changed lb st) (\<lambda>v. Inr (truthy v)))
       (\<lambda>rebuild.
          if rebuild then
            bind (get_group0 (segment_data st)) (\<lambda>sd.
              let graph = routing_dict (map nseg sd) (map outseg sd)
              in Inr (graph, st\<lparr>priv_routing := Some graph\<rparr>))
          else (case priv_routing st of
                  None \<Rightarrow> Inl AttributeError
                | Some graph \<Rightarrow> Inr (graph, st)))"

section \<open>reset\_reaches\<close>

text \<open>
  \<^verbatim>\<open>
  self.reach_data.sort_values(by=['iseg', 'ireach'], inplace=True)
  reach_data = self.reach_data
  segment_data = self.segment_data.groupby('per').get_group(0)
  reach_counts = np.bincount(reach_data.iseg)[1:]
  reach_counts = dict(zip(range(1, len(reach_counts) + 1), reach_counts))
  ireach = [list(range(1, reach_counts[s] + 1)) for s in segment_data.nseg]
  ireach = np.concatenate(ireach)
  try:
      self.reach_data['ireach'] = ireach
  except:
      j=2
  \<close>
  \<open>np.bincount\<close> raises \<open>ValueError\<close> on a negative element and returns the counts of
  \<open>0 .. max\<close> otherwise (nothing for an empty input); \<open>np.concatenate\<close> raises
  \<open>ValueError\<close> on an empty list of arrays; assigning a column of the wrong length raises
  \<open>ValueError\<close>, which the \<open>try\<close> swallows.
\<close>

definition bincount :: "int list \<Rightarrow> error + int list" where
  "bincount xs =
     (if list_ex (\<lambda>x. x < 0) xs then Inl ValueError
      else if xs = [] then Inr []
      else Inr (map (\<lambda>v. int (count_list xs v)) [0..Max (set xs)]))"

definition np_concatenate :: "'a list list \<Rightarrow> error + 'a list" where
  "np_concatenate xss = (if xss = [] then Inl ValueError else Inr (concat xss))"

definition reset_reaches_table :: "reach list \<Rightarrow> segment list \<Rightarrow> error + reach list" where
  "reset_reaches_table rd0 sd =
     (let rd = sort_reaches rd0 in
      bind (get_group0 sd) (\<lambda>sd0.
      bind (bincount (map iseg rd)) (\<lambda>counts.
        let reach_counts = dict_zip [1..int (length (drop 1 counts))] (drop 1 counts) in
        bind (map_err (\<lambda>s. bind (getitem (map_of reach_counts) s) (\<lambda>c. Inr [1..c]))
                (map nseg sd0)) (\<lambda>lists.
        bind (np_concatenate lists) (\<lambda>ireach'.
          Inr (if length ireach' = length rd
               then map2 (\<lambda>r v. r\<lparr>ireach := v\<rparr>) rd ireach'
               else rd))))))"

definition reset_reaches :: "sfrdata \<Rightarrow> error + sfrdata" where
  "reset_reaches st =
     bind (reset_reaches_table (reach_data st) (segment_data st))
       (\<lambda>rd. Inr (st\<lparr>reach_data := rd\<rparr>))"

section \<open>set\_outreaches\<close>

text \<open>
  \<^verbatim>\<open>
  self.reach_data.sort_values(by=['iseg', 'ireach'], inplace=True)
  self.segment_data.sort_values(by=['per', 'nseg'], inplace=True)
  if not self._valid_rnos():
      self.reach_data['rno'] = np.arange(1, len(self.reach_data) + 1)
  self.reset_reaches()
  self.repair_outsegs()
  rd = self.reach_data
  outseg = self.segment_routing
  reach1IDs = dict(zip(rd[rd.ireach == 1].iseg, rd[rd.ireach == 1].rno))
  ireach = rd.ireach.values; iseg = rd.iseg.values; rno = rd.rno.values
  outreach = []
  for i in range(len(rd)):
      if i + 1 == len(rd) or ireach[i + 1] == 1:
          nextseg = outseg[iseg[i]]
          if nextseg > 0:
              nextrchid = reach1IDs[nextseg]
          else:
              nextrchid = 0
      else:
          nextrchid = rno[i + 1]
      outreach.append(nextrchid)
  self.reach_data['outreach'] = outreach
  \<close>
  The loop runs over the rows with the rows that follow in view: \<open>rest = []\<close> is
  \<open>i + 1 == len(rd)\<close>, and \<open>hd rest\<close> is row \<open>i + 1\<close>. The dictionary \<open>outseg\<close> is
  named \<open>outseg'\<close>.
\<close>

fun outreach_loop :: "(int, int) dict \<Rightarrow> (int, int) dict \<Rightarrow> reach list \<Rightarrow> error + int list" where
  "outreach_loop outseg' reach1IDs [] = Inr []"
| "outreach_loop outseg' reach1IDs (r # rest) =
     bind (if rest = [] \<or> ireach (hd rest) = 1 then
             bind (getitem (map_of outseg') (iseg r)) (\<lambda>nextseg.
               if nextseg > 0 then getitem (map_of reach1IDs) nextseg else Inr 0)
           else Inr (rno (hd rest)))
       (\<lambda>nextrchid.
          bind (outreach_loop outseg' reach1IDs rest) (\<lambda>outs. Inr (nextrchid # outs)))"

definition set_outreaches :: "lib \<Rightarrow> sfrdata \<Rightarrow> error + sfrdata" where
  "set_outreaches lb st =
     (let rd1 = sort_reaches (reach_data st);
          sd1 = sort_segments (segment_data st);
          rd2 = (if \<not> valid_rnos (map rno rd1)
                 then map2 (\<lambda>r n. r\<lparr>rno := n\<rparr>) rd1 [1..int (length rd1)]
                 else rd1)
      in bind (reset_reaches (st\<lparr>reach_data := rd2, segment_data := sd1\<rparr>)) (\<lambda>st2.
         bind (segment_routing lb (repair_outsegs st2)) (\<lambda>(outseg', st3).
           let rd = reach_data st3;
               first = filter (\<lambda>r. ireach r = 1) rd;
               reach1IDs = dict_zip (map iseg first) (map rno first)
           in bind (outreach_loop outseg' reach1IDs rd) (\<lambda>outreach'.
                Inr (st3\<lparr>reach_data := map2 (\<lambda>r v. r\<lparr>outreach := v\<rparr>) rd outreach'\<rparr>)))))"

section \<open>reset\_segments\<close>

text \<open>
  \<^verbatim>\<open>
  r = renumber_segments(self.segment_data.nseg, self.segment_data.outseg)
  self.segment_data['nseg'] = [r[s] for s in self.segment_data.nseg]
  self.segment_data['outseg'] = [r[s] for s in self.segment_data.outseg]
  self.reach_data['iseg'] = [r[s] for s in self.reach_data.iseg]
  self.reach_data['outseg'] = [r[s] for s in self.reach_data.outseg]
  self.segment_data.sort_values(by=['per', 'nseg'], inplace=True)
  self.segment_data.index = np.arange(len(self.segment_data))
  assert np.array_equal(self.segment_data.loc[self.segment_data.per == 0, 'nseg'].values,
                        self.segment_data.loc[self.segment_data.per == 0].index.values + 1)
  self.reach_data.sort_values(by=['iseg', 'ireach'], inplace=True)
  \<close>
  The columns of every stress period are passed to \<open>renumber_segments\<close>. The assertion
  compares the \<open>nseg\<close> of each period-0 row with its position in the whole sorted table,
  plus one.
\<close>

definition nseg_assertion :: "segment list \<Rightarrow> bool" where
  "nseg_assertion sd =
     (map nseg (filter (\<lambda>s. per s = 0) sd)
      = map (\<lambda>i. int i + 1) (filter (\<lambda>i. per (sd ! i) = 0) [0..<length sd]))"

definition reset_segments :: "lib \<Rightarrow> sfrdata \<Rightarrow> error + sfrdata" where
  "reset_segments lb st =
     (let sd = segment_data st; rd = reach_data st in
      bind (renumber_segments lb (map nseg sd) (map outseg sd)) (\<lambda>r.
      bind (map_err (getitem (map_of r)) (map nseg sd)) (\<lambda>nseg'.
      bind (map_err (getitem (map_of r)) (map outseg sd)) (\<lambda>outseg'.
      bind (map_err (getitem (map_of r)) (map iseg rd)) (\<lambda>iseg'.
      bind (map_err (getitem (map_of r)) (map rd_outseg rd)) (\<lambda>rd_outseg'.
        let sd1 = map2 (\<lambda>s (n, d). s\<lparr>nseg := n, outseg := d\<rparr>) sd (zip nseg' outseg');
            rd1 = map2 (\<lambda>r (s, d). r\<lparr>iseg := s, rd_outseg := d\<rparr>) rd (zip iseg' rd_outseg');
            sd2 = sort_segments sd1
        in if \<not> nseg_assertion sd2 then Inl AssertionError
           else Inr (st\<lparr>segment_data := sd2, reach_data := sort_reaches rd1\<rparr>)))))))"

section \<open>rno\_routing, the path caches and \_reset\_routing\<close>

text \<open>
  \<^verbatim>\<open>
  if self._rno_routing is None or self._routing_changed():
      self.set_outreaches()
      rd = self.reach_data
      graph = dict(zip(rd.rno, rd.outreach))
      outlets = set(graph.values()).difference(set(graph.keys()))
      graph.update({o: 0 for o in outlets})
      self._rno_routing = graph
  return self._rno_routing
  \<close>
\<close>

definition rno_routing :: "lib \<Rightarrow> sfrdata \<Rightarrow> error + ((int, int) dict \<times> sfrdata)" where
  "rno_routing lb st =
     (case priv_rno_routing st of
        None \<Rightarrow>
          bind (set_outreaches lb st) (\<lambda>st1.
            let rd = reach_data st1;
                graph = routing_dict (map rno rd) (map outreach rd)
            in Inr (graph, st1\<lparr>priv_rno_routing := Some graph\<rparr>))
      | Some cached \<Rightarrow>
          bind (routing_changed lb st) (\<lambda>v.
            if truthy v then
              bind (set_outreaches lb st) (\<lambda>st1.
                let rd = reach_data st1;
                    graph = routing_dict (map rno rd) (map outreach rd)
                in Inr (graph, st1\<lparr>priv_rno_routing := Some graph\<rparr>))
            else Inr (cached, st)))"

text \<open>
  \<^verbatim>\<open>
  def _set_paths(self):
      routing = self.segment_routing
      self._paths = {seg: find_path(routing, seg) for seg in routing.keys()}

  def _set_reach_paths(self):
      routing = self.rno_routing
      self._reach_paths = {rno: find_path(routing, rno) for rno in routing.keys()}
  \<close>
\<close>

definition all_paths :: "lib \<Rightarrow> (int, int) dict \<Rightarrow> error + (int, int list) dict" where
  "all_paths lb routing =
     bind (map_err (\<lambda>k. bind (find_path lb routing k) (\<lambda>p. Inr (k, p))) (map fst routing))
       (\<lambda>items. Inr (dict_update [] items))"

definition set_paths :: "lib \<Rightarrow> sfrdata \<Rightarrow> error + sfrdata" where
  "set_paths lb st =
     bind (segment_routing lb st) (\<lambda>(routing, st1).
       bind (all_paths lb routing) (\<lambda>ps. Inr (st1\<lparr>priv_paths := Some ps\<rparr>)))"

definition set_reach_paths :: "lib \<Rightarrow> sfrdata \<Rightarrow> error + sfrdata" where
  "set_reach_paths lb st =
     bind (rno_routing lb st) (\<lambda>(routing, st1).
       bind (all_paths lb routing) (\<lambda>ps. Inr (st1\<lparr>priv_reach_paths := Some ps\<rparr>)))"

text \<open>
  \<^verbatim>\<open>
  def _reset_routing(self):
      self.reset_reaches()
      self.reset_segments()
      self._segment_routing = None
      self._set_paths()
      self._rno_routing = None
      self._set_reach_paths()
  \<close>
\<close>

definition reset_routing :: "lib \<Rightarrow> sfrdata \<Rightarrow> error + sfrdata" where
  "reset_routing lb st =
     bind (reset_reaches st) (\<lambda>st1.
     bind (reset_segments lb st1) (\<lambda>st2.
     bind (set_paths lb (st2\<lparr>priv_segment_routing := None\<rparr>)) (\<lambda>st3.
     set_reach_paths lb (st3\<lparr>priv_rno_routing := None\<rparr>))))"

text \<open>
  \<^verbatim>\<open>
  @property
  def paths(self):
      if self._paths is None:
          self._set_paths()
          return self._paths
      if self._routing_changed():
          self._reset_routing()
      return self._paths

  @property
  def reach_paths(self):
      if self._paths is None:
          self._set_reach_paths()
          return self._reach_paths
      if self._routing_changed():
          self._reset_routing()
      return self._reach_paths
  \<close>
  Both accessors test \<open>_paths\<close>. The value returned is the cache as it then is
  (\<open>None\<close> or a dictionary).
\<close>

definition paths :: "lib \<Rightarrow> sfrdata \<Rightarrow> error + ((int, int list) dict option \<times> sfrdata)" where
  "paths lb st =
     (if priv_paths st = None then
        bind (set_paths lb st) (\<lambda>st1. Inr (priv_paths st1, st1))
      else
        bind (routing_changed lb st) (\<lambda>v.
        bind (if truthy v then reset_routing lb st else Inr st) (\<lambda>st1.
          Inr (priv_paths st1, st1))))"

definition reach_paths :: "lib \<Rightarrow> sfrdata \<Rightarrow> error + ((int, int list) dict option \<times> sfrdata)" where
  "reach_paths lb st =
     (if priv_paths st = None then
        bind (set_reach_paths lb st) (\<lambda>st1. Inr (priv_reach_paths st1, st1))
      else
        bind (routing_changed lb st) (\<lambda>v.
        bind (if truthy v then reset_routing lb st else Inr st) (\<lambda>st1.
          Inr (priv_reach_paths st1, st1))))"

section \<open>The routing part of the constructor\<close>

text \<open>
  \<^verbatim>\<open>
  self.reach_data = self._setup_reach_data(reach_data)
  self.segment_data = self._setup_segment_data(segment_data)
  ...
  self._segment_routing = None  # dictionary of routing connections
  self._rno_routing = None  # dictionary of rno routing connections
  self._paths = None  # routing sequence from each segment to outlet
  self._reach_paths = None  # routing sequence from each reach number to outlet

  if not self._valid_nsegs(increasing=enforce_increasing_nsegs):
      self.reset_segments()
  self.set_outreaches()
  self.get_slopes()
  \<close>
  \<open>init\<close> starts from the two tables as the setup methods have built them; the flopy
  package object that the constructor attaches afterwards is outside the model.
  \<open>_valid_nsegs\<close> passes the period-0 rows (\<open>segment_data.loc[segment_data.per == 0]\<close>).
  \<open>get_slopes()\<close> runs with its default arguments 0.001, 0.0001 and 1.
\<close>

definition init :: "lib \<Rightarrow> bool \<Rightarrow> reach list \<Rightarrow> segment list \<Rightarrow> error + sfrdata" where
  "init lb enforce_increasing_nsegs rd sd =
     (let st = \<lparr>reach_data = rd, segment_data = sd,
                priv_segment_routing = None, priv_routing = None, priv_rno_routing = None,
                priv_paths = None, priv_reach_paths = None\<rparr>;
          sd0 = filter (\<lambda>s. per s = 0) sd
      in bind (if \<not> valid_nsegs (map nseg sd0) (map outseg sd0) enforce_increasing_nsegs
               then reset_segments lb st else Inr st) (\<lambda>st1.
         bind (set_outreaches lb st1) (\<lambda>st2.
           get_slopes (1/1000) (1/10000) 1 st2)))"

section \<open>to\_riv: selecting and dropping reaches\<close>

text \<open>
  \<^verbatim>\<open>
  loc = np.array([True] * len(self.reach_data))
  if segments is None and rno is None and line_ids is None:
      drop_in_sfr = False
  if segments is not None: ... loc = loc & self.reach_data.iseg.isin(segments)
  if line_ids is not None: ... loc = loc & self.reach_data.line_id.isin(line_ids)
  if rno is not None: ... loc = loc & self.reach_data.rno.isin(rno)
  reaches = self.reach_data.loc[loc, 'rno'].tolist()
  to_riv_reaches = set()
  for rno in reaches:
      if rno not in to_riv_reaches:
          to_riv_reaches.update(set(self.reach_paths[rno]))
  \<close>
  Each selector is \<open>None\<close> or a list. Every pass of the loop reads the property
  \<open>reach_paths\<close>, which may change the instance. Subscripting \<open>None\<close> raises
  \<open>TypeError\<close>.
\<close>

definition selected :: "int list option \<Rightarrow> int list option \<Rightarrow> int list option \<Rightarrow> reach \<Rightarrow> bool" where
  "selected segments rnos line_ids r =
     ((case segments of None \<Rightarrow> True | Some xs \<Rightarrow> iseg r \<in> set xs)
      \<and> (case line_ids of None \<Rightarrow> True | Some xs \<Rightarrow> line_id r \<in> set xs)
      \<and> (case rnos of None \<Rightarrow> True | Some xs \<Rightarrow> rno r \<in> set xs))"

fun to_riv_loop :: "lib \<Rightarrow> int list \<Rightarrow> int set \<Rightarrow> sfrdata \<Rightarrow> error + (int set \<times> sfrdata)" where
  "to_riv_loop lb [] to_riv_reaches st = Inr (to_riv_reaches, st)"
| "to_riv_loop lb (n # reaches) to_riv_reaches st =
     (if n \<notin> to_riv_reaches then
        bind (reach_paths lb st) (\<lambda>(ps, st1).
        bind (case ps of None \<Rightarrow> Inl TypeError | Some d \<Rightarrow> getitem (map_of d) n) (\<lambda>p.
          to_riv_loop lb reaches (to_riv_reaches \<union> set p) st1))
      else to_riv_loop lb reaches to_riv_reaches st)"

text \<open>
  \<^verbatim>\<open>
  if drop_in_sfr:
      riv_reaches = self.reach_data.rno.isin(to_riv_reaches)
      riv_nodes = self.reach_data.loc[riv_reaches, 'node']
      is_riv_node = self.reach_data.node.isin(riv_nodes)
      # drop sfr from all model cells with a riv reach
      self.reach_data = self.reach_data.loc[~is_riv_node].copy()
      # reset riv outreaches (that are no longer in SFR network) to zero
      riv_outreaches = set(self.reach_data.outreach).difference(self.reach_data.rno)
      outreach_is_riv = self.reach_data.outreach.isin(riv_outreaches)
      self.reach_data.loc[outreach_is_riv, 'outreach'] = 0
      # drop segments that were completely converted to riv
      riv_segments = set(self.segment_data.nseg).difference(set(self.reach_data.iseg))
      outseg_is_riv = self.reach_data.outseg.isin(riv_segments)
      self.reach_data.loc[outseg_is_riv, 'outseg'] = 0
      is_riv_segment = self.segment_data.nseg.isin(riv_segments)
      self.segment_data = self.segment_data.loc[~is_riv_segment].copy()
      outseg_is_riv = self.segment_data.outseg.isin(riv_segments)
      self.segment_data.loc[outseg_is_riv, 'outseg'] = 0
      # reset the numbering to be consecutive
      self._reset_routing()
  \<close>
  \<open>drop_in_sfr\<close> is the block up to the call of \<open>_reset_routing\<close>.
\<close>

definition drop_in_sfr :: "int set \<Rightarrow> sfrdata \<Rightarrow> sfrdata" where
  "drop_in_sfr to_riv_reaches st =
     (let rd = reach_data st; sd = segment_data st;
          riv_nodes = map node (filter (\<lambda>r. rno r \<in> to_riv_reaches) rd);
          rd1 = filter (\<lambda>r. node r \<notin> set riv_nodes) rd;
          riv_outreaches = set (map outreach rd1) - set (map rno rd1);
          rd2 = map (\<lambda>r. if outreach r \<in> riv_outreaches then r\<lparr>outreach := 0\<rparr> else r) rd1;
          riv_segments = set (map nseg sd) - set (map iseg rd2);
          rd3 = map (\<lambda>r. if rd_outseg r \<in> riv_segments then r\<lparr>rd_outseg := 0\<rparr> else r) rd2;
          sd1 = filter (\<lambda>s. nseg s \<notin> riv_segments) sd;
          sd2 = map (\<lambda>s. if outseg s \<in> riv_segments then s\<lparr>outseg := 0\<rparr> else s) sd1
      in st\<lparr>reach_data := rd3, segment_data := sd2\<rparr>)"

text \<open>
  \<open>to_riv\<close>, as far as it changes the instance: the selection, the loop over the
  selected reaches, and the drop. The statements between the loop and the drop build the
  returned RIV dataset from a copy of the selected rows, with functions that are not
  among the source files; they are left out, so the model describes the calls in which
  they do not raise.
\<close>

definition to_riv ::
  "lib \<Rightarrow> int list option \<Rightarrow> int list option \<Rightarrow> int list option \<Rightarrow> bool \<Rightarrow> sfrdata
     \<Rightarrow> error + sfrdata" where
  "to_riv lb segments rnos line_ids drop_in_sfr_arg st =
     (let drop = (if segments = None \<and> rnos = None \<and> line_ids = None then False
                  else drop_in_sfr_arg);
          reaches = map rno (filter (selected segments rnos line_ids) (reach_data st))
      in bind (to_riv_loop lb reaches {} st) (\<lambda>(to_riv_reaches, st1).
           if drop then reset_routing lb (drop_in_sfr to_riv_reaches st1) else Inr st1))"

section \<open>Reachable states of an instance\<close>


text \<open>
  The states an instance can be in: built by the constructor, then any sequence of the
  modelled methods and of edits of the two tables by the caller. No other method of the
  class assigns \<open>_segment_routing\<close>.
\<close>

inductive reachable :: "lib \<Rightarrow> sfrdata \<Rightarrow> bool" for lb :: lib where
  constructed: "init lb enforce rd sd = Inr st \<Longrightarrow> reachable lb st"
| edit_tables: "reachable lb st \<Longrightarrow> reachable lb (st\<lparr>reach_data := rd, segment_data := sd\<rparr>)"
| call_segment_routing: "reachable lb st \<Longrightarrow> segment_routing lb st = Inr (g, st') \<Longrightarrow> reachable lb st'"
| call_rno_routing: "reachable lb st \<Longrightarrow> rno_routing lb st = Inr (g, st') \<Longrightarrow> reachable lb st'"
| call_paths: "reachable lb st \<Longrightarrow> paths lb st = Inr (ps, st') \<Longrightarrow> reachable lb st'"
| call_reach_paths: "reachable lb st \<Longrightarrow> reach_paths lb st = Inr (ps, st') \<Longrightarrow> reachable lb st'"
| call_set_paths: "reachable lb st \<Longrightarrow> set_paths lb st = Inr st' \<Longrightarrow> reachable lb st'"
| call_set_reach_paths: "reachable lb st \<Longrightarrow> set_reach_paths lb st = Inr st' \<Longrightarrow> reachable lb st'"
| call_reset_routing: "reachable lb st \<Longrightarrow> reset_routing lb st = Inr st' \<Longrightarrow> reachable lb st'"
| call_repair_outsegs: "reachable lb st \<Longrightarrow> reachable lb (repair_outsegs st)"
| call_reset_segments: "reachable lb st \<Longrightarrow> reset_segments lb st = Inr st' \<Longrightarrow> reachable lb st'"
| call_reset_reaches: "reachable lb st \<Longrightarrow> reset_reaches st = Inr st' \<Longrightarrow> reachable lb st'"
| call_set_outreaches: "reachable lb st \<Longrightarrow> set_outreaches lb st = Inr st' \<Longrightarrow> reachable lb st'"
| call_get_slopes: "reachable lb st \<Longrightarrow> get_slopes d mn mx st = Inr st' \<Longrightarrow> reachable lb st'"
| call_to_riv: "reachable lb st \<Longrightarrow> to_riv lb segments rnos line_ids dr st = Inr st' \<Longrightarrow> reachable lb st'"

section \<open>Notions used in the statements\<close>

text \<open>
  The \<open>nseg\<close> column of the period-0 rows, in table order, and the number of reaches
  that a reach table assigns to a segment.
\<close>


definition period0_nsegs :: "segment list \<Rightarrow> int list" where
  "period0_nsegs sd = map nseg (filter (\<lambda>s. per s = 0) sd)"

definition reach_count :: "reach list \<Rightarrow> int \<Rightarrow> int" where
  "reach_count rd s = int (count_list (map iseg rd) s)"





text \<open>
  Modelled from the spec: the contract of \<open>renumber_segments\<close> of sfrmaker.routing, which
  is not among the source files. "Produce a mapping old-id to new-id such that: new ids
  are \<open>1..N\<close> dense; a segment's new id is always less than its destination's new id
  unless the destination is \<open>0\<close> or negative." \<open>N\<close> is the number of distinct ids. An
  outlet \<open>0\<close> or a negative lake number is no segment and keeps its number, as in the
  spec's scenario "\<open>nseg=[5,3]\<close>, \<open>outseg=[3,0]\<close> ... relabels to \<open>nseg=[1,2]\<close>,
  \<open>outseg=[2,0]\<close>".
\<close>

definition renumbering :: "int list \<Rightarrow> int list \<Rightarrow> (int, int) dict \<Rightarrow> bool" where
  "renumbering ids dests r =
     (inj_on (map_of r) (set ids)
      \<and> map_of r ` set ids = Some ` {1..int (card (set ids))}
      \<and> (\<forall>(i, d) \<in> set (zip ids dests). d > 0 \<longrightarrow>
            (\<exists>a b. map_of r i = Some a \<and> map_of r d = Some b \<and> a < b))
      \<and> (\<forall>(d, v) \<in> set r. d \<le> 0 \<longrightarrow> v = d))"

text \<open>\<open>r[x]\<close> for a key \<open>x\<close> of the mapping \<open>r\<close>.\<close>

definition relabel :: "(int, int) dict \<Rightarrow> int \<Rightarrow> int" where
  "relabel r x = (case map_of r x of Some y \<Rightarrow> y | None \<Rightarrow> x)"







section \<open>An instance of the imported functions\<close>

text \<open>
  Modelled from the spec: \<open>find_path\<close> of sfrmaker.routing, which is not among the
  source files. "Produce the ordered sequence of ids starting at \<open>start\<close> and following
  destinations until reaching \<open>0\<close> (inclusive of \<open>0\<close>). Fails with \<open>CycleError\<close> if
  the same id is revisited before reaching \<open>0\<close>"; an id with no outgoing entry is a
  \<open>RoutingError\<close>. A walk that passes more ids than the graph has keys has revisited one.
\<close>

fun follow :: "(int, int) dict \<Rightarrow> nat \<Rightarrow> int \<Rightarrow> error + int list" where
  "follow graph fuel x =
     (if x = 0 then Inr [0]
      else case map_of graph x of
             None \<Rightarrow> Inl RoutingError
           | Some d \<Rightarrow>
               (case fuel of
                  0 \<Rightarrow> Inl CycleError
                | Suc n \<Rightarrow> bind (follow graph n d) (\<lambda>p. Inr (x # p))))"

definition find_path_spec :: "(int, int) dict \<Rightarrow> int \<Rightarrow> error + int list" where
  "find_path_spec graph start = follow graph (length graph) start"

text \<open>
  Modelled from the spec: \<open>renumber_segments\<close> of sfrmaker.routing, which is not among
  the source files. "Produce a mapping old-id to new-id such that: new ids are \<open>1..N\<close>
  dense; a segment's new id is always less than its destination's new id unless the
  destination is \<open>0\<close> or negative (enforced by a topological ordering; tie-break:
  preserve relative input order among ids with no forced ordering constraint between
  them). Must terminate and fail with \<open>RoutingError\<close> if the input graph contains a true
  cycle among strictly-positive ids." The ordering takes, again and again, the first
  remaining id to which no other remaining id routes. Sinks (\<open>0\<close> and negative
  destinations) keep their number.
\<close>

fun topo_order :: "(int \<times> int) list \<Rightarrow> nat \<Rightarrow> int list \<Rightarrow> error + int list" where
  "topo_order edges fuel remaining =
     (if remaining = [] then Inr []
      else case fuel of
             0 \<Rightarrow> Inl RoutingError
           | Suc n \<Rightarrow>
               (case find (\<lambda>x. \<not> list_ex (\<lambda>(m, d). d = x \<and> m \<in> set remaining) edges) remaining of
                  None \<Rightarrow> Inl RoutingError
                | Some x \<Rightarrow> bind (topo_order edges n (removeAll x remaining))
                              (\<lambda>rest. Inr (x # rest))))"

definition renumber_segments_spec :: "int list \<Rightarrow> int list \<Rightarrow> error + (int, int) dict" where
  "renumber_segments_spec ids dests =
     (let nodes = remdups ids;
          sinks = filter (\<lambda>d. d \<le> 0) (remdups (0 # dests))
      in bind (topo_order (zip ids dests) (length nodes) nodes) (\<lambda>order.
           Inr (zip order [1..int (length order)] @ map (\<lambda>d. (d, d)) sinks)))"

text \<open>
  Modelled from the spec: \<open>rno_nseg_routing_consistent\<close> of sfrmaker.checks, which is
  not among the source files. "True iff, for every reach that is the last reach of its
  segment, its \<open>outreach\<close> target equals the first reach (\<open>ireach == 1\<close>) of the segment
  identified by that segment's \<open>outseg\<close> (or \<open>0\<close>/lake if sink)." The last reach of a
  segment is the one with the largest \<open>ireach\<close>.
\<close>

definition rno_nseg_routing_consistent_spec ::
  "int list \<Rightarrow> int list \<Rightarrow> int list \<Rightarrow> int list \<Rightarrow> int list \<Rightarrow> int list \<Rightarrow> error + pyval" where
  "rno_nseg_routing_consistent_spec nsegs outsegs isegs ireaches rnos outreaches =
     (let rows = zip isegs (zip ireaches (zip rnos outreaches));
          is_last = (\<lambda>(s, k, n, d). list_all (\<lambda>(s', k', n', d'). s' = s \<longrightarrow> k' \<le> k) rows);
          agrees = (\<lambda>(s, k, n, d).
             case map_of (zip nsegs outsegs) s of
               None \<Rightarrow> False
             | Some t \<Rightarrow>
                 if t > 0 then list_ex (\<lambda>(s', k', n', d'). s' = t \<and> k' = 1 \<and> n' = d) rows
                 else d = 0)
      in Inr (PyBool (list_all (\<lambda>row. is_last row \<longrightarrow> agrees row) rows)))"

definition spec_lib :: lib where
  "spec_lib = \<lparr>renumber_segments = renumber_segments_spec, find_path = find_path_spec,
     rno_nseg_routing_consistent = rno_nseg_routing_consistent_spec\<rparr>"

section \<open>Example tables\<close>

definition example_segments :: "segment list" where
  "example_segments =
     [\<lparr>per = 0, nseg = 1, outseg = 2\<rparr>, \<lparr>per = 0, nseg = 2, outseg = 7\<rparr>,
      \<lparr>per = 0, nseg = 3, outseg = -1\<rparr>]"

definition example_state :: "reach list \<Rightarrow> segment list \<Rightarrow> sfrdata" where
  "example_state rd sd =
     \<lparr>reach_data = rd, segment_data = sd,
      priv_segment_routing = None, priv_routing = None, priv_rno_routing = None,
      priv_paths = None, priv_reach_paths = None\<rparr>"

definition mk_reach :: "int \<Rightarrow> int \<Rightarrow> int \<Rightarrow> int \<Rightarrow> real \<Rightarrow> real \<Rightarrow> int \<Rightarrow> reach" where
  "mk_reach n nd sg ir rl st outr =
     \<lparr>rno = n, node = nd, iseg = sg, ireach = ir, rchlen = rl, strtop = st,
      slope = 0, outreach = outr, rd_outseg = 0, line_id = 0\<rparr>"




definition mk2 :: "int \<Rightarrow> int \<Rightarrow> int \<Rightarrow> reach" where
  "mk2 n sg ir = \<lparr>rno = n, node = n, iseg = sg, ireach = ir, rchlen = 100, strtop = 100,
      slope = 0, outreach = 0, rd_outseg = 0, line_id = 0\<rparr>"

definition seg :: "int \<Rightarrow> int \<Rightarrow> segment" where
  "seg n d = \<lparr>per = 0, nseg = n, outseg = d\<rparr>"

text \<open>A single reach whose \<open>outreach\<close> disagrees with its segment's \<open>outseg\<close>.\<close>

definition stale_state :: sfrdata where
  "stale_state = example_state [mk_reach 1 1 1 1 100 100 5] [seg 1 0]"

text \<open>Two segments numbered against the flow: segment 5 (two reaches) routes to segment 3.\<close>

definition two_segs :: "reach list" where
  "two_segs = [mk_reach 0 11 5 1 100 100 0, mk_reach 0 12 5 2 100 90 0,
               mk_reach 0 13 3 1 100 80 0]"

text \<open>The instance that the constructor builds from \<open>two_segs\<close>.\<close>

definition constructed_two :: sfrdata where
  "constructed_two =
     \<lparr>reach_data =
        [\<lparr>rno = 1, node = 11, iseg = 1, ireach = 1, rchlen = 100,
            strtop = 100, slope = 1 / 10, outreach = 2, rd_outseg = 0, line_id = 0\<rparr>,
         \<lparr>rno = 2, node = 12, iseg = 1, ireach = 2, rchlen = 100,
            strtop = 90, slope = 1 / 10, outreach = 3, rd_outseg = 0, line_id = 0\<rparr>,
         \<lparr>rno = 3, node = 13, iseg = 2, ireach = 1, rchlen = 100,
            strtop = 80, slope = 1 / 1000, outreach = 0, rd_outseg = 0, line_id = 0\<rparr>],
      segment_data = [\<lparr>per = 0, nseg = 1, outseg = 2\<rparr>, \<lparr>per = 0, nseg = 2, outseg = 0\<rparr>],
      priv_segment_routing = None,
      priv_routing = Some [(1, 2), (2, 0), (0, 0)],
      priv_rno_routing = None, priv_paths = None, priv_reach_paths = None\<rparr>"

text \<open>A network of one reach in one segment, which is an outlet.\<close>

definition single_reach :: "reach list" where
  "single_reach = [mk_reach 1 1 1 1 100 100 0]"

text \<open>Reaches whose \<open>ireach\<close> values have gaps and are out of order.\<close>

definition gappy :: "reach list" where
  "gappy = [mk_reach 1 11 5 4 100 100 0, mk_reach 2 12 5 2 100 90 0, mk_reach 3 13 3 7 100 80 0]"













section \<open>Basic facts about dictionaries and exceptions\<close>

lemma bind_simps [simp]: "bind (Inr x) f = f x" "bind (Inl e) f = Inl e"
  by (simp_all add: bind_def)

lemma getitem_Inr_iff [simp]: "getitem d k = Inr v \<longleftrightarrow> d k = Some v"
  by (simp add: getitem_def split: option.splits)

lemma getitem_Some: "d k = Some v \<Longrightarrow> getitem d k = Inr v"
  by simp

lemma bind_Inr_iff: "bind m f = Inr y \<longleftrightarrow> (\<exists>x. m = Inr x \<and> f x = Inr y)"
  by (cases m) (auto simp: bind_def)

lemma bind_Inl_iff: "bind m f = Inl e \<longleftrightarrow> (m = Inl e \<or> (\<exists>x. m = Inr x \<and> f x = Inl e))"
  by (cases m) (auto simp: bind_def)

lemma map_err_Inr_length: "map_err f xs = Inr ys \<Longrightarrow> length ys = length xs"
  by (induction xs arbitrary: ys) (auto split: sum.splits)


lemma map_err_Inr_iff:
  "(\<exists>ys. map_err f xs = Inr ys) \<longleftrightarrow> (\<forall>x \<in> set xs. \<exists>y. f x = Inr y)"
  by (induction xs) (auto split: sum.splits)



lemma dict_of_dom: "dom (dict_of kvs) = fst ` set kvs"
  unfolding dict_of_def by (simp add: dom_map_of_conv_image_fst)



section \<open>Properties of repair\_outsegs\<close>

lemma repair_outsegs_table_length:
  "length (repair_outsegs_table sd) = length sd"
  by (simp add: repair_outsegs_table_def)

lemma repair_outsegs_table_nseg:
  "map nseg (repair_outsegs_table sd) = map nseg sd"
  by (simp add: repair_outsegs_table_def)

lemma repair_outsegs_table_per:
  "map per (repair_outsegs_table sd) = map per sd"
  by (simp add: repair_outsegs_table_def)

lemma repair_outsegs_table_outseg:
  "s \<in> set (repair_outsegs_table sd) \<Longrightarrow>
     outseg s = 0 \<or> outseg s < 0 \<or> outseg s \<in> set (map nseg sd)"
  by (auto simp: repair_outsegs_table_def isasegment_def split: if_splits)

text \<open>
  C6. \<open>repair_outsegs\<close> is a total function of the instance (it has no raising
  branch); it touches nothing but the \<open>outseg\<close> column of the segment table; afterwards
  every \<open>outseg\<close> is 0, negative or one of the table's \<open>nseg\<close> values; and a row whose
  \<open>outseg\<close> already was 0, negative or an \<open>nseg\<close> value is left as it was.
\<close>

theorem repair_outsegs_establishes_invariant3:
  "reach_data (repair_outsegs st) = reach_data st
   \<and> length (segment_data (repair_outsegs st)) = length (segment_data st)
   \<and> map nseg (segment_data (repair_outsegs st)) = map nseg (segment_data st)
   \<and> map per (segment_data (repair_outsegs st)) = map per (segment_data st)
   \<and> (\<forall>s \<in> set (segment_data (repair_outsegs st)).
        outseg s = 0 \<or> outseg s < 0
        \<or> outseg s \<in> set (map nseg (segment_data (repair_outsegs st))))
   \<and> (\<forall>i < length (segment_data st).
        (let s = segment_data st ! i in
           outseg s = 0 \<or> outseg s < 0 \<or> outseg s \<in> set (map nseg (segment_data st))
           \<longrightarrow> segment_data (repair_outsegs st) ! i = s))"
proof -
  let ?sd = "segment_data st"
  have a: "\<forall>s \<in> set (repair_outsegs_table ?sd).
        outseg s = 0 \<or> outseg s < 0 \<or> outseg s \<in> set (map nseg (repair_outsegs_table ?sd))"
    using repair_outsegs_table_outseg [of _ ?sd]
    by (simp only: repair_outsegs_table_nseg) blast
  have b: "\<forall>i < length ?sd.
        (let s = ?sd ! i in
           outseg s = 0 \<or> outseg s < 0 \<or> outseg s \<in> set (map nseg ?sd)
           \<longrightarrow> repair_outsegs_table ?sd ! i = s)"
    by (auto simp: repair_outsegs_table_def isasegment_def Let_def)
  show ?thesis
    using a b
    by (simp add: repair_outsegs_def repair_outsegs_table_length
        repair_outsegs_table_nseg repair_outsegs_table_per)
qed

theorem repair_outsegs_establishes_invariant3_witness:
  "segment_data (repair_outsegs (example_state [] example_segments))
   = [\<lparr>per = 0, nseg = 1, outseg = 2\<rparr>, \<lparr>per = 0, nseg = 2, outseg = 0\<rparr>,
      \<lparr>per = 0, nseg = 3, outseg = -1\<rparr>]
   \<and> list_all (\<lambda>s. outseg s = 0 \<or> outseg s < 0 \<or> outseg s \<in> {1, 2, 3})
        (segment_data (repair_outsegs (example_state [] example_segments)))
   \<and> segment_data (repair_outsegs (example_state [] example_segments)) ! 0
        = example_segments ! 0"
  using repair_outsegs_establishes_invariant3 [of "example_state [] example_segments"]
  by (simp add: repair_outsegs_def repair_outsegs_table_def isasegment_def
      example_state_def example_segments_def)

section \<open>Properties of get\_slopes\<close>







lemma slope_terms_length: "slope_terms rd = Inr ts \<Longrightarrow> length ts = length rd"
  by (auto simp: slope_terms_def Let_def bind_Inr_iff dest: map_err_Inr_length)




lemma get_slopes_table_Inr:
  assumes "get_slopes_table d mn mx rd = Inr rd'"
  obtains ps where "pre_clamp_slopes d rd = Inr ps" "length ps = length rd"
    "rd' = map2 (\<lambda>r s. r\<lparr>slope := s\<rparr>) rd (clip_above mx (clip_below mn ps))"
    "0 < sum_list (map outreach rd)"
proof -
  from assms obtain ps where ps: "pre_clamp_slopes d rd = Inr ps"
    "rd' = map2 (\<lambda>r s. r\<lparr>slope := s\<rparr>) rd (clip_above mx (clip_below mn ps))"
    "0 < sum_list (map outreach rd)"
    by (auto simp: get_slopes_table_def bind_Inr_iff split: if_splits)
  from ps(1) have "length ps = length rd"
    by (auto simp: pre_clamp_slopes_def bind_Inr_iff dest: slope_terms_length)
  with ps that show thesis by blast
qed







section \<open>Properties of \_routing\_changed\<close>

lemma py_staleness_value:
  assumes "is_bool c"
  shows "truthy (py_and (py_and (PyBool a) (PyBool b)) (py_invert c))
           = (a \<and> b \<and> \<not> truthy c)"
proof (cases c)
  case (PyBool x)
  have "(1::int) AND - 2 = 0" "(1::int) AND - 1 = 1" by simp_all
  then show ?thesis using PyBool by (cases a; cases b; cases x) simp_all
next
  case (NpBool x)
  then show ?thesis by simp
next
  case (PyInt i)
  then show ?thesis using assms by simp
qed

lemma routing_changed_Inr:
  assumes "get_group0 (segment_data st) = Inr sd"
    and "rno_nseg_routing_consistent lb (map nseg sd) (map outseg sd)
           (map iseg (reach_data st)) (map ireach (reach_data st))
           (map rno (reach_data st)) (map outreach (reach_data st)) = Inr c"
  shows "routing_changed lb st =
     Inr (py_and (py_and
            (PyBool (dict_ne (dict_zip (map nseg sd) (map outseg sd)) (priv_segment_routing st)))
            (PyBool (dict_ne (dict_zip (map rno (reach_data st)) (map outreach (reach_data st)))
                       (priv_rno_routing st))))
          (py_invert c))"
  using assms by (simp add: routing_changed_def Let_def)

text \<open>
  C3. Where the period-0 segment rows exist and \<open>rno_nseg_routing_consistent\<close> returns a
  boolean (a Python \<open>bool\<close> or a \<open>numpy.bool_\<close>), \<open>_routing_changed\<close> returns a value
  that is true exactly when the freshly built segment mapping differs from the cached
  \<open>_segment_routing\<close>, and the freshly built reach mapping differs from the cached
  \<open>_rno_routing\<close>, and the consistency check fails; in every other such state its result
  is false.
\<close>

theorem routing_changed_conjunctive:
  assumes "get_group0 (segment_data st) = Inr sd"
    and "rno_nseg_routing_consistent lb (map nseg sd) (map outseg sd)
           (map iseg (reach_data st)) (map ireach (reach_data st))
           (map rno (reach_data st)) (map outreach (reach_data st)) = Inr c"
    and "is_bool c"
  shows "\<exists>v. routing_changed lb st = Inr v
     \<and> truthy v =
         (dict_ne (dict_zip (map nseg sd) (map outseg sd)) (priv_segment_routing st)
          \<and> dict_ne (dict_zip (map rno (reach_data st)) (map outreach (reach_data st)))
               (priv_rno_routing st)
          \<and> \<not> truthy c)"
  using routing_changed_Inr [OF assms(1,2)] py_staleness_value [OF assms(3)]
  by simp

theorem routing_changed_conjunctive_witness:
  "routing_changed spec_lib stale_state = Inr (PyInt 1) \<and> truthy (PyInt 1)"
proof -
  have g: "get_group0 (segment_data stale_state) = Inr [seg 1 0]"
    by (simp add: stale_state_def example_state_def get_group0_def seg_def)
  have c: "rno_nseg_routing_consistent spec_lib (map nseg [seg 1 0]) (map outseg [seg 1 0])
           (map iseg (reach_data stale_state)) (map ireach (reach_data stale_state))
           (map rno (reach_data stale_state)) (map outreach (reach_data stale_state))
         = Inr (PyBool False)"
    by (simp add: spec_lib_def rno_nseg_routing_consistent_spec_def stale_state_def
        example_state_def seg_def mk_reach_def)
  have e: "routing_changed spec_lib stale_state = Inr (PyInt 1)"
    using g c by (simp add: routing_changed_def Let_def dict_ne_def stale_state_def example_state_def)
  from routing_changed_conjunctive [OF g c] e show ?thesis by simp
qed

section \<open>The cache \_segment\_routing\<close>

lemma get_slopes_cache:
  "get_slopes d mn mx st = Inr st' \<Longrightarrow> priv_segment_routing st' = priv_segment_routing st"
  by (auto simp: get_slopes_def bind_Inr_iff)

lemma reset_reaches_cache:
  "reset_reaches st = Inr st' \<Longrightarrow> priv_segment_routing st' = priv_segment_routing st"
  by (auto simp: reset_reaches_def bind_Inr_iff)

lemma repair_outsegs_cache:
  "priv_segment_routing (repair_outsegs st) = priv_segment_routing st"
  by (simp add: repair_outsegs_def)

lemma reset_segments_cache:
  "reset_segments lb st = Inr st' \<Longrightarrow> priv_segment_routing st' = priv_segment_routing st"
  by (auto simp: reset_segments_def Let_def bind_Inr_iff split: if_splits)

lemma segment_routing_cache:
  "segment_routing lb st = Inr (g, st') \<Longrightarrow> priv_segment_routing st' = priv_segment_routing st"
  by (auto simp: segment_routing_def Let_def bind_Inr_iff split: if_splits option.splits)

lemma set_outreaches_cache:
  assumes "set_outreaches lb st = Inr st'"
  shows "priv_segment_routing st' = priv_segment_routing st"
proof -
  from assms obtain st1 st2 g st3 rd' where
    a: "reset_reaches st1 = Inr st2" "priv_segment_routing st1 = priv_segment_routing st"
    and b: "segment_routing lb (repair_outsegs st2) = Inr (g, st3)"
    and c: "st' = st3\<lparr>reach_data := rd'\<rparr>"
    by (auto simp: set_outreaches_def Let_def bind_Inr_iff)
  show ?thesis
    using reset_reaches_cache [OF a(1)] a(2) segment_routing_cache [OF b] c
    by (simp add: repair_outsegs_cache)
qed

lemma rno_routing_cache:
  "rno_routing lb st = Inr (g, st') \<Longrightarrow> priv_segment_routing st' = priv_segment_routing st"
  by (auto simp: rno_routing_def Let_def bind_Inr_iff split: option.splits if_splits
      dest: set_outreaches_cache)

lemma set_paths_cache:
  "set_paths lb st = Inr st' \<Longrightarrow> priv_segment_routing st' = priv_segment_routing st"
  by (auto simp: set_paths_def bind_Inr_iff dest: segment_routing_cache)

lemma set_reach_paths_cache:
  "set_reach_paths lb st = Inr st' \<Longrightarrow> priv_segment_routing st' = priv_segment_routing st"
  by (auto simp: set_reach_paths_def bind_Inr_iff dest: rno_routing_cache)

lemma reset_routing_cache:
  assumes "reset_routing lb st = Inr st'"
  shows "priv_segment_routing st' = None"
proof -
  from assms obtain st2 st3 where
    a: "set_paths lb (st2\<lparr>priv_segment_routing := None\<rparr>) = Inr st3"
    and b: "set_reach_paths lb (st3\<lparr>priv_rno_routing := None\<rparr>) = Inr st'"
    by (auto simp: reset_routing_def bind_Inr_iff)
  show ?thesis using set_paths_cache [OF a] set_reach_paths_cache [OF b] by simp
qed

lemma paths_cache:
  "paths lb st = Inr (ps, st') \<Longrightarrow> priv_segment_routing st = None
     \<Longrightarrow> priv_segment_routing st' = None"
  by (auto simp: paths_def bind_Inr_iff split: if_splits
      dest: set_paths_cache reset_routing_cache)

lemma reach_paths_cache:
  "reach_paths lb st = Inr (ps, st') \<Longrightarrow> priv_segment_routing st = None
     \<Longrightarrow> priv_segment_routing st' = None"
  by (auto simp: reach_paths_def bind_Inr_iff split: if_splits
      dest: set_reach_paths_cache reset_routing_cache)

lemma to_riv_loop_cache:
  "to_riv_loop lb reaches acc st = Inr (acc', st') \<Longrightarrow> priv_segment_routing st = None
     \<Longrightarrow> priv_segment_routing st' = None"
proof (induction reaches arbitrary: acc st)
  case Nil
  then show ?case by simp
next
  case (Cons n reaches)
  show ?case
  proof (cases "n \<in> acc")
    case True
    with Cons show ?thesis by simp
  next
    case False
    with Cons.prems(1) obtain ps st1 p where
      a: "reach_paths lb st = Inr (ps, st1)"
      and b: "to_riv_loop lb reaches (acc \<union> set p) st1 = Inr (acc', st')"
      by (auto simp: bind_Inr_iff)
    from reach_paths_cache [OF a Cons.prems(2)] Cons.IH [OF b] show ?thesis by blast
  qed
qed

lemma drop_in_sfr_cache:
  "priv_segment_routing (drop_in_sfr xs st) = priv_segment_routing st"
  by (simp add: drop_in_sfr_def Let_def)

lemma to_riv_cache:
  "to_riv lb segments rnos line_ids dr st = Inr st' \<Longrightarrow> priv_segment_routing st = None
     \<Longrightarrow> priv_segment_routing st' = None"
  by (auto simp: to_riv_def Let_def bind_Inr_iff split: if_splits
      dest: to_riv_loop_cache reset_routing_cache)

lemma init_cache:
  assumes "init lb enforce rd sd = Inr st"
  shows "priv_segment_routing st = None"
proof -
  let ?st0 = "\<lparr>reach_data = rd, segment_data = sd,
                priv_segment_routing = None, priv_routing = None, priv_rno_routing = None,
                priv_paths = None, priv_reach_paths = None\<rparr>"
  from assms obtain st1 st2 where
    a: "st1 = ?st0 \<or> reset_segments lb ?st0 = Inr st1"
    and b: "set_outreaches lb st1 = Inr st2"
    and c: "get_slopes (1/1000) (1/10000) 1 st2 = Inr st"
    by (auto simp: init_def Let_def bind_Inr_iff split: if_splits)
  from a have "priv_segment_routing st1 = None"
    by (auto dest: reset_segments_cache)
  then show ?thesis
    using set_outreaches_cache [OF b] get_slopes_cache [OF c] by simp
qed

lemma reachable_cache: "reachable lb st \<Longrightarrow> priv_segment_routing st = None"
proof (induction rule: reachable.induct)
  case (constructed enforce rd sd st)
  then show ?case by (rule init_cache)
next
  case (edit_tables st rd sd)
  then show ?case by simp
next
  case (call_segment_routing st g st')
  then show ?case by (simp add: segment_routing_cache)
next
  case (call_rno_routing st g st')
  then show ?case by (simp add: rno_routing_cache)
next
  case (call_paths st ps st')
  then show ?case by (simp add: paths_cache)
next
  case (call_reach_paths st ps st')
  then show ?case by (simp add: reach_paths_cache)
next
  case (call_set_paths st st')
  then show ?case by (simp add: set_paths_cache)
next
  case (call_set_reach_paths st st')
  then show ?case by (simp add: set_reach_paths_cache)
next
  case (call_reset_routing st st')
  then show ?case by (simp add: reset_routing_cache)
next
  case (call_repair_outsegs st)
  then show ?case by (simp add: repair_outsegs_cache)
next
  case (call_reset_segments st st')
  then show ?case by (simp add: reset_segments_cache)
next
  case (call_reset_reaches st st')
  then show ?case by (simp add: reset_reaches_cache)
next
  case (call_set_outreaches st st')
  then show ?case by (simp add: set_outreaches_cache)
next
  case (call_get_slopes st d mn mx st')
  then show ?case by (simp add: get_slopes_cache)
next
  case (call_to_riv st segments rnos line_ids dr st')
  then show ?case by (simp add: to_riv_cache)
qed

text \<open>
  C9. In every reachable state \<open>_segment_routing\<close> is \<open>None\<close>. Hence the segment
  comparison of \<open>_routing_changed\<close> always reports a change, and (where period 0 exists
  and the consistency check returns a boolean) \<open>_routing_changed\<close> is true exactly when
  the rebuilt reach mapping differs from the cached \<open>_rno_routing\<close> and the check fails;
  and \<open>segment_routing\<close> rebuilds its mapping from the current period-0 rows on every
  access, storing it in \<open>_routing\<close>.
\<close>

theorem segment_routing_cache_never_set:
  assumes "reachable lb st"
  shows "priv_segment_routing st = None
     \<and> (\<forall>sd c. get_group0 (segment_data st) = Inr sd \<longrightarrow>
           rno_nseg_routing_consistent lb (map nseg sd) (map outseg sd)
             (map iseg (reach_data st)) (map ireach (reach_data st))
             (map rno (reach_data st)) (map outreach (reach_data st)) = Inr c \<longrightarrow>
           is_bool c \<longrightarrow>
           dict_ne (dict_zip (map nseg sd) (map outseg sd)) (priv_segment_routing st)
           \<and> (\<exists>v. routing_changed lb st = Inr v
                \<and> truthy v =
                    (dict_ne (dict_zip (map rno (reach_data st)) (map outreach (reach_data st)))
                       (priv_rno_routing st)
                     \<and> \<not> truthy c)))
     \<and> (\<forall>sd. get_group0 (segment_data st) = Inr sd \<longrightarrow>
           segment_routing lb st =
             Inr (routing_dict (map nseg sd) (map outseg sd),
                  st\<lparr>priv_routing := Some (routing_dict (map nseg sd) (map outseg sd))\<rparr>))"
proof -
  have n: "priv_segment_routing st = None" using assms by (rule reachable_cache)
  have a: "dict_ne (dict_zip (map nseg sd) (map outseg sd)) (priv_segment_routing st)
           \<and> (\<exists>v. routing_changed lb st = Inr v
                \<and> truthy v =
                    (dict_ne (dict_zip (map rno (reach_data st)) (map outreach (reach_data st)))
                       (priv_rno_routing st)
                     \<and> \<not> truthy c))"
    if g: "get_group0 (segment_data st) = Inr sd"
      and c: "rno_nseg_routing_consistent lb (map nseg sd) (map outseg sd)
             (map iseg (reach_data st)) (map ireach (reach_data st))
             (map rno (reach_data st)) (map outreach (reach_data st)) = Inr c"
      and bc: "is_bool c" for sd c
  proof -
    let ?A = "dict_ne (dict_zip (map nseg sd) (map outseg sd)) (priv_segment_routing st)"
    let ?B = "dict_ne (dict_zip (map rno (reach_data st)) (map outreach (reach_data st)))
                (priv_rno_routing st)"
    let ?v = "py_and (py_and (PyBool ?A) (PyBool ?B)) (py_invert c)"
    have e: "routing_changed lb st = Inr ?v" by (rule routing_changed_Inr [OF g c])
    have t: "truthy ?v = (?A \<and> ?B \<and> \<not> truthy c)" by (rule py_staleness_value [OF bc])
    have A: ?A by (simp add: n dict_ne_def)
    from t A have "truthy ?v = (?B \<and> \<not> truthy c)" by blast
    with A e show ?thesis by blast
  qed
  have b: "segment_routing lb st =
             Inr (routing_dict (map nseg sd) (map outseg sd),
                  st\<lparr>priv_routing := Some (routing_dict (map nseg sd) (map outseg sd))\<rparr>)"
    if "get_group0 (segment_data st) = Inr sd" for sd
    using that n by (simp add: segment_routing_def Let_def)
  show ?thesis using n a b by blast
qed

lemma init_two_segs:
  "init spec_lib True two_segs [seg 5 3, seg 3 0] =
     Inr \<lparr>reach_data =
        [\<lparr>rno = 1, node = 11, iseg = 1, ireach = 1, rchlen = 100,
            strtop = 100, slope = 1 / 10, outreach = 2, rd_outseg = 0, line_id = 0\<rparr>,
         \<lparr>rno = 2, node = 12, iseg = 1, ireach = 2, rchlen = 100,
            strtop = 90, slope = 1 / 10, outreach = 3, rd_outseg = 0, line_id = 0\<rparr>,
         \<lparr>rno = 3, node = 13, iseg = 2, ireach = 1, rchlen = 100,
            strtop = 80, slope = 1 / 1000, outreach = 0, rd_outseg = 0, line_id = 0\<rparr>],
        segment_data = [\<lparr>per = 0, nseg = 1, outseg = 2\<rparr>, \<lparr>per = 0, nseg = 2, outseg = 0\<rparr>],
        priv_segment_routing = None,
        priv_routing = Some [(1, 2), (2, 0), (0, 0)],
        priv_rno_routing = None, priv_paths = None, priv_reach_paths = None\<rparr>"
  by code_simp

theorem segment_routing_cache_never_set_witness:
  "reachable spec_lib constructed_two
   \<and> priv_segment_routing constructed_two = None
   \<and> segment_routing spec_lib constructed_two = Inr ([(1, 2), (2, 0), (0, 0)], constructed_two)"
proof -
  have r: "reachable spec_lib constructed_two"
    using reachable.constructed [of spec_lib True two_segs "[seg 5 3, seg 3 0]"] init_two_segs
    by (simp add: constructed_two_def)
  have g: "get_group0 (segment_data constructed_two) = Inr [seg 1 2, seg 2 0]"
    by (simp add: constructed_two_def get_group0_def seg_def)
  have d: "routing_dict (map nseg [seg 1 2, seg 2 0]) (map outseg [seg 1 2, seg 2 0])
             = [(1, 2), (2, 0), (0, 0)]"
    by (simp add: routing_dict_def dict_zip_def dict_update_def seg_def)
  from segment_routing_cache_never_set [OF r] r g d show ?thesis
    by (simp add: constructed_two_def)
qed

section \<open>The assertion of get\_slopes and the constructor\<close>

lemma get_slopes_Inr_outreach:
  assumes "get_slopes d mn mx st = Inr st'"
  shows "map outreach (reach_data st') = map outreach (reach_data st)"
    and "0 < sum_list (map outreach (reach_data st))"
proof -
  obtain rd' where t: "get_slopes_table d mn mx (reach_data st) = Inr rd'"
    and st': "st' = st\<lparr>reach_data := rd'\<rparr>"
    using assms by (auto simp: get_slopes_def bind_Inr_iff)
  obtain ps where ps: "length ps = length (reach_data st)"
    and rd': "rd' = map2 (\<lambda>r s. r\<lparr>slope := s\<rparr>) (reach_data st) (clip_above mx (clip_below mn ps))"
    and pos: "0 < sum_list (map outreach (reach_data st))"
    using t by (rule get_slopes_table_Inr)
  have "length (clip_above mx (clip_below mn ps)) = length (reach_data st)"
    using ps by (simp add: clip_above_def clip_below_def)
  then show "map outreach (reach_data st') = map outreach (reach_data st)"
    by (simp add: st' rd' list_eq_iff_nth_eq)
  show "0 < sum_list (map outreach (reach_data st))" by (rule pos)
qed

lemma sum_list_all_zero: "\<forall>x \<in> set xs. f x = (0::int) \<Longrightarrow> sum_list (map f xs) = 0"
  by (induction xs) auto

text \<open>
  C10. \<open>get_slopes\<close> raises \<open>AssertionError\<close> whenever the sum of the \<open>outreach\<close> column
  is not positive, in particular when every reach is an outlet; so the constructor, which
  runs \<open>set_outreaches\<close> and then \<open>get_slopes\<close>, raises when \<open>set_outreaches\<close> leaves
  only outlets, and every instance it does build has a reach with \<open>outreach \<noteq> 0\<close>.
\<close>

theorem get_slopes_rejects_outlet_only:
  "(sum_list (map outreach (reach_data st)) \<le> 0 \<longrightarrow>
      get_slopes default_slope minimum_slope maximum_slope st = Inl AssertionError)
   \<and> ((\<forall>r \<in> set (reach_data st). outreach r = 0) \<longrightarrow>
      get_slopes default_slope minimum_slope maximum_slope st = Inl AssertionError)
   \<and> (\<forall>st'. set_outreaches lb st = Inr st' \<longrightarrow>
        (\<forall>r \<in> set (reach_data st'). outreach r = 0) \<longrightarrow>
        bind (set_outreaches lb st) (get_slopes (1/1000) (1/10000) 1) = Inl AssertionError)
   \<and> (\<forall>enforce rd sd c. init lb enforce rd sd = Inr c \<longrightarrow>
        0 < sum_list (map outreach (reach_data c))
        \<and> (\<exists>r \<in> set (reach_data c). outreach r \<noteq> 0))"
proof -
  have a: "get_slopes d mn mx s = Inl AssertionError"
    if "sum_list (map outreach (reach_data s)) \<le> 0" for d mn mx s
    using that by (simp add: get_slopes_def get_slopes_table_def)
  have b: "get_slopes d mn mx s = Inl AssertionError"
    if "\<forall>r \<in> set (reach_data s). outreach r = 0" for d mn mx s
    using a [of s] sum_list_all_zero [OF that] by simp
  have c: "0 < sum_list (map outreach (reach_data c)) \<and> (\<exists>r \<in> set (reach_data c). outreach r \<noteq> 0)"
    if "init lb enforce rd sd = Inr c" for enforce rd sd c
  proof -
    from that obtain st2 where g: "get_slopes (1/1000) (1/10000) 1 st2 = Inr c"
      by (auto simp: init_def Let_def bind_Inr_iff)
    have pos: "0 < sum_list (map outreach (reach_data c))"
      using get_slopes_Inr_outreach [OF g] by simp
    have "\<exists>r \<in> set (reach_data c). outreach r \<noteq> 0"
    proof (rule ccontr)
      assume "\<not> (\<exists>r \<in> set (reach_data c). outreach r \<noteq> 0)"
      then have "\<forall>r \<in> set (reach_data c). outreach r = 0" by blast
      from sum_list_all_zero [OF this] pos show False by simp
    qed
    with pos show ?thesis by blast
  qed
  show ?thesis using a b c by (auto simp: bind_def)
qed

theorem get_slopes_rejects_outlet_only_witness:
  "get_slopes (1/1000) (1/10000) 1 (example_state single_reach [seg 1 0]) = Inl AssertionError
   \<and> init spec_lib True single_reach [seg 1 0] = Inl AssertionError"
proof -
  have z: "\<forall>r \<in> set (reach_data (example_state single_reach [seg 1 0])). outreach r = 0"
    by (simp add: example_state_def single_reach_def mk_reach_def)
  have i: "init spec_lib True single_reach [seg 1 0] = Inl AssertionError"
    by code_simp
  from get_slopes_rejects_outlet_only
    [of "example_state single_reach [seg 1 0]" "1/1000" "1/10000" 1 spec_lib] z i
  show ?thesis by blast
qed

section \<open>Properties of reset\_reaches\<close>

lemma map_of_dict_update:
  "map_of (dict_update d kvs) k =
     (case map_of (rev kvs) k of Some v \<Rightarrow> Some v | None \<Rightarrow> map_of d k)"
proof (induction kvs arbitrary: d)
  case Nil
  then show ?case by (simp add: dict_update_def)
next
  case (Cons x xs)
  have "dict_update d (x # xs) = dict_update (AList.update (fst x) (snd x) d) xs"
    by (simp add: dict_update_def case_prod_beta)
  then show ?case
    using Cons [of "AList.update (fst x) (snd x) d"]
    by (cases x) (auto simp: update_conv' map_add_def split: option.splits)
qed

lemma map_of_dict_zip: "map_of (dict_zip ks vs) = dict_of (zip ks vs)"
  by (rule ext) (simp add: dict_zip_def map_of_dict_update dict_of_def split: option.splits)

lemma dict_of_zip_map:
  "dict_of (zip ks (map f ks)) k = (if k \<in> set ks then Some (f k) else None)"
proof -
  have "rev (zip ks (map f ks)) = zip (rev ks) (map f (rev ks))"
    by (simp add: rev_map [symmetric] zip_rev)
  then show ?thesis
    by (simp add: dict_of_def map_of_zip_map)
qed

lemma map_err_all_Inr:
  "(\<And>x. x \<in> set xs \<Longrightarrow> f x = Inr (g x)) \<Longrightarrow> map_err f xs = Inr (map g xs)"
  by (induction xs) auto

lemma map_err_some_Inl:
  assumes "\<And>x. x \<in> set xs \<Longrightarrow> f x = Inl e \<or> (\<exists>y. f x = Inr y)"
    and "\<exists>x \<in> set xs. f x = Inl e"
  shows "map_err f xs = Inl e"
  using assms
proof (induction xs)
  case Nil
  then show ?case by simp
next
  case (Cons x xs)
  show ?case
  proof (cases "f x")
    case (Inl e')
    with Cons.prems(1) [of x] show ?thesis by auto
  next
    case (Inr y)
    with Cons.prems(2) have "\<exists>x \<in> set xs. f x = Inl e" by auto
    with Cons.IH Cons.prems(1) have "map_err f xs = Inl e" by auto
    with Inr show ?thesis by simp
  qed
qed

lemma bincount_tail:
  assumes "bincount xs = Inr counts"
  shows "drop 1 counts = map (\<lambda>v. int (count_list xs v)) [1..(if xs = [] then 0 else Max (set xs))]"
proof (cases "xs = []")
  case True
  with assms show ?thesis by (simp add: bincount_def)
next
  case False
  then obtain x where "x \<in> set xs" by (cases xs) auto
  moreover have nn: "\<forall>x \<in> set xs. 0 \<le> x"
    using assms by (auto simp: bincount_def list_ex_iff split: if_splits)
  ultimately have "0 \<le> Max (set xs)"
    by (meson List.finite_set Max_ge order_trans)
  then have "[0..Max (set xs)] = 0 # [1..Max (set xs)]"
    by (simp add: upto_rec1)
  moreover have "counts = map (\<lambda>v. int (count_list xs v)) [0..Max (set xs)]"
    using assms False by (auto simp: bincount_def split: if_splits)
  ultimately show ?thesis using False by simp
qed

lemma bincount_Inl:
  "bincount xs = (if \<exists>x \<in> set xs. x < 0 then Inl ValueError
                  else Inr (if xs = [] then [] else map (\<lambda>v. int (count_list xs v)) [0..Max (set xs)]))"
  by (simp add: bincount_def list_ex_iff)

lemma reach_counts_lookup:
  assumes "bincount xs = Inr counts"
  shows "map_of (dict_zip [1..int (length (drop 1 counts))] (drop 1 counts)) s =
     (if 1 \<le> s \<and> (\<exists>x \<in> set xs. s \<le> x) then Some (int (count_list xs s)) else None)"
proof -
  let ?m = "if xs = [] then 0 else Max (set xs)"
  have t: "drop 1 counts = map (\<lambda>v. int (count_list xs v)) [1..?m]"
    using assms by (rule bincount_tail)
  have nn: "\<forall>x \<in> set xs. 0 \<le> x"
    using assms by (auto simp: bincount_def list_ex_iff split: if_splits)
  have m0: "0 \<le> ?m"
  proof (cases "xs = []")
    case True
    then show ?thesis by simp
  next
    case False
    then obtain x where "x \<in> set xs" by (cases xs) auto
    with nn have "0 \<le> Max (set xs)" by (meson List.finite_set Max_ge order_trans)
    with False show ?thesis by simp
  qed
  have "length (drop 1 counts) = nat ?m"
    by (subst t) simp
  then have len: "[1..int (length (drop 1 counts))] = [1..?m]"
    using m0 by (simp del: drop_Suc_Cons length_drop)
  have mem: "(1 \<le> s \<and> (\<exists>x \<in> set xs. s \<le> x)) = (s \<in> set [1..?m])"
  proof (cases "xs = []")
    case True
    then show ?thesis by simp
  next
    case False
    then have "(\<exists>x \<in> set xs. s \<le> x) = (s \<le> Max (set xs))"
      by (simp add: Max_ge_iff)
    with False show ?thesis by simp
  qed
  show ?thesis
    unfolding len
    by (subst t) (simp only: map_of_dict_zip dict_of_zip_map mem)
qed


lemma count_list_map_filter:
  "count_list (map g xs) y = length (filter (\<lambda>x. g x = y) xs)"
  by (induction xs) auto

lemma sort_reaches_length [simp]: "length (sort_reaches rd) = length rd"
  by (simp add: sort_reaches_def)

lemma sort_reaches_set [simp]: "set (sort_reaches rd) = set rd"
  by (simp add: sort_reaches_def)

lemma reach_count_sort_reaches [simp]: "reach_count (sort_reaches rd) s = reach_count rd s"
  by (simp add: reach_count_def count_list_map_filter sort_reaches_def filter_sort)

lemma period0_nsegs_Nil: "(filter (\<lambda>s. per s = 0) sd = []) = (period0_nsegs sd = [])"
  by (simp add: period0_nsegs_def)

text \<open>The outcome of \<open>reset_reaches\<close>, case by case.\<close>

lemma reset_reaches_table_cases:
  "reset_reaches_table rd sd =
     (if period0_nsegs sd = [] then Inl KeyError
      else if \<exists>r \<in> set rd. iseg r < 0 then Inl ValueError
      else if \<exists>s \<in> set (period0_nsegs sd). \<not> (1 \<le> s \<and> (\<exists>r \<in> set rd. s \<le> iseg r))
        then Inl KeyError
      else Inr (if length (concat (map (\<lambda>s. [1..reach_count rd s]) (period0_nsegs sd)))
                     = length rd
                then map2 (\<lambda>r v. r\<lparr>ireach := v\<rparr>) (sort_reaches rd)
                       (concat (map (\<lambda>s. [1..reach_count rd s]) (period0_nsegs sd)))
                else sort_reaches rd))"
proof (cases "period0_nsegs sd = []")
  case True
  then show ?thesis
    by (simp add: reset_reaches_table_def get_group0_def period0_nsegs_Nil Let_def)
next
  case ne: False
  let ?srd = "sort_reaches rd"
  let ?xs = "map iseg ?srd"
  let ?ns = "period0_nsegs sd"
  have g: "get_group0 sd = Inr (filter (\<lambda>s. per s = 0) sd)"
    using ne by (simp add: get_group0_def period0_nsegs_Nil Let_def)
  have setxs: "set ?xs = iseg ` set rd" by simp
  show ?thesis
  proof (cases "\<exists>r \<in> set rd. iseg r < 0")
    case True
    then have "bincount ?xs = Inl ValueError"
      by (subst bincount_Inl) (simp only: setxs, auto)
    with ne True g show ?thesis
      by (simp add: reset_reaches_table_def Let_def)
  next
    case nonneg: False
    then have "\<not> (\<exists>x \<in> set ?xs. x < 0)" by simp
    then obtain counts where bc: "bincount ?xs = Inr counts"
      by (simp only: bincount_Inl if_False)
    let ?rc = "dict_zip [1..int (length (drop 1 counts))] (drop 1 counts)"
    let ?f = "\<lambda>s. bind (getitem (map_of ?rc) s) (\<lambda>c. Inr [1..c])"
    have f: "?f s = (if 1 \<le> s \<and> (\<exists>r \<in> set rd. s \<le> iseg r)
                     then Inr [1..reach_count rd s] else Inl KeyError)" for s
    proof -
      have "(\<exists>x \<in> set ?xs. s \<le> x) = (\<exists>r \<in> set rd. s \<le> iseg r)" by auto
      moreover have "int (count_list ?xs s) = reach_count rd s"
        using reach_count_sort_reaches [of rd s] by (simp add: reach_count_def)
      ultimately show ?thesis
        using reach_counts_lookup [OF bc, of s] by (simp add: getitem_def)
    qed
    have step: "reset_reaches_table rd sd =
        bind (map_err ?f ?ns) (\<lambda>lists.
          bind (np_concatenate lists) (\<lambda>ireach'.
            Inr (if length ireach' = length ?srd
                 then map2 (\<lambda>r v. r\<lparr>ireach := v\<rparr>) ?srd ireach'
                 else ?srd)))"
      by (simp only: reset_reaches_table_def Let_def g bind_simps bc period0_nsegs_def)
    show ?thesis
    proof (cases "\<exists>s \<in> set ?ns. \<not> (1 \<le> s \<and> (\<exists>r \<in> set rd. s \<le> iseg r))")
      case True
      have me: "map_err ?f ?ns = Inl KeyError"
      proof (rule map_err_some_Inl)
        show "?f x = Inl KeyError \<or> (\<exists>y. ?f x = Inr y)" for x
          by (simp only: f split: if_splits) simp
        show "\<exists>x \<in> set ?ns. ?f x = Inl KeyError"
          using True by (simp only: f) auto
      qed
      have "reset_reaches_table rd sd = Inl KeyError"
        by (simp only: step me bind_simps)
      with ne nonneg True show ?thesis by simp
    next
      case False
      have me: "map_err ?f ?ns = Inr (map (\<lambda>s. [1..reach_count rd s]) ?ns)"
      proof (rule map_err_all_Inr)
        show "?f x = Inr [1..reach_count rd x]" if "x \<in> set ?ns" for x
          using False that by (simp only: f) auto
      qed
      have nc: "np_concatenate (map (\<lambda>s. [1..reach_count rd s]) ?ns)
                  = Inr (concat (map (\<lambda>s. [1..reach_count rd s]) ?ns))"
        using ne by (simp add: np_concatenate_def)
      have "reset_reaches_table rd sd =
          Inr (if length (concat (map (\<lambda>s. [1..reach_count rd s]) ?ns)) = length ?srd
               then map2 (\<lambda>r v. r\<lparr>ireach := v\<rparr>) ?srd
                      (concat (map (\<lambda>s. [1..reach_count rd s]) ?ns))
               else ?srd)"
        by (simp only: step me bind_simps nc)
      with ne nonneg False show ?thesis by simp
    qed
  qed
qed


lemma sorted_split_least:
  fixes xs :: "int list"
  assumes "sorted xs" "\<forall>x \<in> set xs. n \<le> x"
  shows "xs = filter (\<lambda>x. x = n) xs @ filter (\<lambda>x. x \<noteq> n) xs"
  using assms
proof (induction xs)
  case Nil
  then show ?case by simp
next
  case (Cons x xs)
  show ?case
  proof (cases "x = n")
    case True
    with Cons show ?thesis by simp
  next
    case False
    with Cons.prems have "\<forall>y \<in> set xs. y \<noteq> n" by auto
    then have "filter (\<lambda>x. x = n) xs = []" "filter (\<lambda>x. x \<noteq> n) xs = xs"
      by (simp_all add: filter_empty_conv filter_id_conv)
    with False show ?thesis by simp
  qed
qed

lemma filter_eq_replicate:
  "filter (\<lambda>x. x = n) xs = replicate (count_list xs n) n"
  by (induction xs) auto

lemma count_list_filter_neq:
  "s \<noteq> n \<Longrightarrow> count_list (filter (\<lambda>x. x \<noteq> n) xs) s = count_list xs s"
  by (induction xs) auto

text \<open>A sorted column whose values all occur in an increasing list is made of one block per value.\<close>

lemma sorted_blocks:
  fixes xs :: "int list"
  assumes "sorted xs" "set xs \<subseteq> set ns" "sorted_wrt (<) ns"
  shows "xs = concat (map (\<lambda>s. replicate (count_list xs s) s) ns)"
  using assms
proof (induction ns arbitrary: xs)
  case Nil
  then show ?case by simp
next
  case (Cons n ns)
  let ?ys = "filter (\<lambda>x. x \<noteq> n) xs"
  have least: "\<forall>x \<in> set xs. n \<le> x" using Cons.prems(2,3) by fastforce
  have split: "xs = replicate (count_list xs n) n @ ?ys"
    using sorted_split_least [OF Cons.prems(1) least] by (simp add: filter_eq_replicate)
  have "sorted ?ys" using Cons.prems(1) by (rule sorted_wrt_filter)
  moreover have "set ?ys \<subseteq> set ns" using Cons.prems(2) by auto
  moreover have "sorted_wrt (<) ns" using Cons.prems(3) by simp
  ultimately have ih: "?ys = concat (map (\<lambda>s. replicate (count_list ?ys s) s) ns)"
    by (rule Cons.IH)
  have "map (\<lambda>s. replicate (count_list ?ys s) s) ns
          = map (\<lambda>s. replicate (count_list xs s) s) ns"
  proof (rule map_cong [OF refl])
    fix s assume "s \<in> set ns"
    with Cons.prems(3) have "s \<noteq> n" by auto
    then show "replicate (count_list ?ys s) s = replicate (count_list xs s) s"
      by (simp add: count_list_filter_neq)
  qed
  with ih have "?ys = concat (map (\<lambda>s. replicate (count_list xs s) s) ns)" by simp
  with split show ?case by simp
qed

lemma zip_blocks:
  "zip (concat (map (\<lambda>s. replicate (k s) s) ns)) (concat (map (\<lambda>s. [1..int (k s)]) ns))
     = concat (map (\<lambda>s. map (Pair s) [1..int (k s)]) ns)"
  by (induction ns) (simp_all add: zip_replicate1)

lemma length_blocks:
  "length (concat (map (\<lambda>s. [1..int (k s)]) ns))
     = length (concat (map (\<lambda>s. replicate (k s) s) ns))"
  by (induction ns) simp_all

lemma sorted_iseg_sort_reaches: "sorted (map iseg (sort_reaches rd))"
proof -
  have "sorted (map (\<lambda>r. (iseg r, ireach r)) (sort_reaches rd))"
    by (simp add: sort_reaches_def)
  then have "sorted_wrt (\<lambda>a b. (iseg a, ireach a) \<le> (iseg b, ireach b)) (sort_reaches rd)"
    by (simp add: sorted_map)
  then have "sorted_wrt (\<lambda>a b. iseg a \<le> iseg b) (sort_reaches rd)"
    by (rule sorted_wrt_mono_rel [rotated]) (auto simp: less_eq_prod_def)
  then show ?thesis by (simp add: sorted_map)
qed

text \<open>
  Where the period-0 segment numbers are increasing, every reach belongs to one of them
  and none of them lies outside \<open>1 .. max(iseg)\<close>, the pass rewrites \<open>ireach\<close> to
  \<open>1 .. k\<close> within every segment, in the sorted order.
\<close>

lemma reset_reaches_table_blocks:
  assumes inc: "sorted_wrt (<) (period0_nsegs sd)"
    and mem: "\<forall>r \<in> set rd. iseg r \<in> set (period0_nsegs sd)"
    and rng: "\<forall>s \<in> set (period0_nsegs sd). 1 \<le> s \<and> (\<exists>r \<in> set rd. s \<le> iseg r)"
    and ne: "period0_nsegs sd \<noteq> []"
  shows "reset_reaches_table rd sd =
           Inr (map2 (\<lambda>r v. r\<lparr>ireach := v\<rparr>) (sort_reaches rd)
                  (concat (map (\<lambda>s. [1..reach_count rd s]) (period0_nsegs sd))))"
    and "map (\<lambda>r. (iseg r, ireach r))
           (map2 (\<lambda>r v. r\<lparr>ireach := v\<rparr>) (sort_reaches rd)
              (concat (map (\<lambda>s. [1..reach_count rd s]) (period0_nsegs sd))))
         = concat (map (\<lambda>s. map (Pair s) [1..reach_count rd s]) (period0_nsegs sd))"
    and "length (concat (map (\<lambda>s. [1..reach_count rd s]) (period0_nsegs sd))) = length rd"
proof -
  let ?ns = "period0_nsegs sd"
  let ?srd = "sort_reaches rd"
  let ?xs = "map iseg ?srd"
  let ?k = "\<lambda>s. count_list ?xs s"
  let ?vs = "concat (map (\<lambda>s. [1..reach_count rd s]) ?ns)"
  have rc: "reach_count rd s = int (?k s)" for s
    using reach_count_sort_reaches [of rd s] by (simp add: reach_count_def)
  have xs: "?xs = concat (map (\<lambda>s. replicate (?k s) s) ?ns)"
  proof (rule sorted_blocks)
    show "sorted ?xs" by (rule sorted_iseg_sort_reaches)
    show "set ?xs \<subseteq> set ?ns" using mem by auto
    show "sorted_wrt (<) ?ns" by (rule inc)
  qed
  have vs: "?vs = concat (map (\<lambda>s. [1..int (?k s)]) ?ns)"
    by (simp only: rc)
  have "length ?vs = length ?xs"
    unfolding vs by (subst (2) xs) (rule length_blocks)
  then have len: "length ?vs = length rd" by simp
  have nonneg: "\<not> (\<exists>r \<in> set rd. iseg r < 0)"
  proof
    assume "\<exists>r \<in> set rd. iseg r < 0"
    then obtain r where "r \<in> set rd" "iseg r < 0" by blast
    with mem rng show False by fastforce
  qed
  show "reset_reaches_table rd sd = Inr (map2 (\<lambda>r v. r\<lparr>ireach := v\<rparr>) ?srd ?vs)"
    using ne nonneg rng len by (simp add: reset_reaches_table_cases)
  have "map (\<lambda>r. (iseg r, ireach r)) (map2 (\<lambda>r v. r\<lparr>ireach := v\<rparr>) ?srd ?vs) = zip ?xs ?vs"
    using len by (simp add: list_eq_iff_nth_eq)
  also have "\<dots> = concat (map (\<lambda>s. map (Pair s) [1..int (?k s)]) ?ns)"
    unfolding vs by (subst xs) (rule zip_blocks)
  finally show "map (\<lambda>r. (iseg r, ireach r)) (map2 (\<lambda>r v. r\<lparr>ireach := v\<rparr>) ?srd ?vs)
         = concat (map (\<lambda>s. map (Pair s) [1..reach_count rd s]) ?ns)"
    by (simp only: rc)
  show "length ?vs = length rd" by (rule len)
qed


lemma length_count_blocks:
  "int (length (concat (map (\<lambda>s. [1..reach_count rd s]) ns)))
     = sum_list (map (reach_count rd) ns)"
  by (induction ns) (simp_all add: reach_count_def)

lemma reset_reaches_eq:
  "reset_reaches st =
     (case reset_reaches_table (reach_data st) (segment_data st) of
        Inl e \<Rightarrow> Inl e | Inr rd \<Rightarrow> Inr (st\<lparr>reach_data := rd\<rparr>))"
  by (simp add: reset_reaches_def bind_def)

text \<open>
  C7 (amended). \<open>reset_reaches\<close> sorts the reach table by \<open>(iseg, ireach)\<close>, rows with
  equal keys keeping their order. It raises \<open>KeyError\<close> when there is no period-0 segment
  row or when a period-0 \<open>nseg\<close> lies outside \<open>1 .. max(iseg)\<close>, and \<open>ValueError\<close> when
  an \<open>iseg\<close> is negative. Otherwise, when the reach counts of the period-0 segments add
  up to the number of reaches, it overwrites \<open>ireach\<close>, row by row, with \<open>1 .. count\<close>
  for each period-0 \<open>nseg\<close> in table order, and when they do not add up it raises nothing
  and leaves \<open>ireach\<close> as it was. When the period-0 \<open>nseg\<close> are strictly increasing and
  every \<open>iseg\<close> is one of them (none outside \<open>1 .. max(iseg)\<close>), the result has, segment
  after segment, the \<open>ireach\<close> values \<open>1 .. k\<close> in the sorted order, every other column
  being that of the sorted table.
\<close>

theorem reset_reaches_outcomes:
  assumes "reach_data st = rd" and "period0_nsegs (segment_data st) = ns"
  shows "(ns = [] \<longrightarrow> reset_reaches st = Inl KeyError)
     \<and> (ns \<noteq> [] \<and> (\<exists>r \<in> set rd. iseg r < 0) \<longrightarrow> reset_reaches st = Inl ValueError)
     \<and> (ns \<noteq> [] \<and> (\<forall>r \<in> set rd. 0 \<le> iseg r)
          \<and> (\<exists>s \<in> set ns. s < 1 \<or> (\<forall>r \<in> set rd. iseg r < s))
          \<longrightarrow> reset_reaches st = Inl KeyError)
     \<and> (ns \<noteq> [] \<and> (\<forall>r \<in> set rd. 0 \<le> iseg r)
          \<and> (\<forall>s \<in> set ns. 1 \<le> s \<and> (\<exists>r \<in> set rd. s \<le> iseg r))
          \<and> sum_list (map (reach_count rd) ns) \<noteq> int (length rd)
          \<longrightarrow> reset_reaches st = Inr (st\<lparr>reach_data := sort_reaches rd\<rparr>))
     \<and> (ns \<noteq> [] \<and> (\<forall>r \<in> set rd. 0 \<le> iseg r)
          \<and> (\<forall>s \<in> set ns. 1 \<le> s \<and> (\<exists>r \<in> set rd. s \<le> iseg r))
          \<and> sum_list (map (reach_count rd) ns) = int (length rd)
          \<longrightarrow> reset_reaches st =
                Inr (st\<lparr>reach_data := map2 (\<lambda>r v. r\<lparr>ireach := v\<rparr>) (sort_reaches rd)
                       (concat (map (\<lambda>s. [1..reach_count rd s]) ns))\<rparr>))
     \<and> (ns \<noteq> [] \<and> sorted_wrt (<) ns \<and> (\<forall>r \<in> set rd. iseg r \<in> set ns)
          \<and> (\<forall>s \<in> set ns. 1 \<le> s \<and> (\<exists>r \<in> set rd. s \<le> iseg r))
          \<longrightarrow> (\<exists>rd'. reset_reaches st = Inr (st\<lparr>reach_data := rd'\<rparr>)
                \<and> length rd' = length rd
                \<and> map (\<lambda>r. r\<lparr>ireach := 0\<rparr>) rd' = map (\<lambda>r. r\<lparr>ireach := 0\<rparr>) (sort_reaches rd)
                \<and> map (\<lambda>r. (iseg r, ireach r)) rd'
                    = concat (map (\<lambda>s. map (Pair s) [1..reach_count rd s]) ns)))"
proof -
  let ?vs = "concat (map (\<lambda>s. [1..reach_count rd s]) ns)"
  note cases = reset_reaches_table_cases [of rd "segment_data st", unfolded assms(2)]
  have leq: "(length ?vs = length rd) = (sum_list (map (reach_count rd) ns) = int (length rd))"
    using length_count_blocks [of rd ns] by linarith
  have e: "reset_reaches st =
     (case reset_reaches_table rd (segment_data st) of
        Inl e \<Rightarrow> Inl e | Inr rd' \<Rightarrow> Inr (st\<lparr>reach_data := rd'\<rparr>))"
    using assms(1) by (simp add: reset_reaches_eq)
  have c1: "ns = [] \<longrightarrow> reset_reaches st = Inl KeyError"
    by (simp add: e cases)
  have c2: "ns \<noteq> [] \<and> (\<exists>r \<in> set rd. iseg r < 0) \<longrightarrow> reset_reaches st = Inl ValueError"
    by (simp add: e cases)
  have c3: "ns \<noteq> [] \<and> (\<forall>r \<in> set rd. 0 \<le> iseg r)
          \<and> (\<exists>s \<in> set ns. s < 1 \<or> (\<forall>r \<in> set rd. iseg r < s))
          \<longrightarrow> reset_reaches st = Inl KeyError"
    by (auto simp: e cases not_le)
  have c4: "ns \<noteq> [] \<and> (\<forall>r \<in> set rd. 0 \<le> iseg r)
          \<and> (\<forall>s \<in> set ns. 1 \<le> s \<and> (\<exists>r \<in> set rd. s \<le> iseg r))
          \<and> sum_list (map (reach_count rd) ns) \<noteq> int (length rd)
          \<longrightarrow> reset_reaches st = Inr (st\<lparr>reach_data := sort_reaches rd\<rparr>)"
    by (auto simp: e cases leq not_le)
  have c5: "ns \<noteq> [] \<and> (\<forall>r \<in> set rd. 0 \<le> iseg r)
          \<and> (\<forall>s \<in> set ns. 1 \<le> s \<and> (\<exists>r \<in> set rd. s \<le> iseg r))
          \<and> sum_list (map (reach_count rd) ns) = int (length rd)
          \<longrightarrow> reset_reaches st =
                Inr (st\<lparr>reach_data := map2 (\<lambda>r v. r\<lparr>ireach := v\<rparr>) (sort_reaches rd) ?vs\<rparr>)"
    by (auto simp: e cases leq not_le)
  have c6: "\<exists>rd'. reset_reaches st = Inr (st\<lparr>reach_data := rd'\<rparr>)
                \<and> length rd' = length rd
                \<and> map (\<lambda>r. r\<lparr>ireach := 0\<rparr>) rd' = map (\<lambda>r. r\<lparr>ireach := 0\<rparr>) (sort_reaches rd)
                \<and> map (\<lambda>r. (iseg r, ireach r)) rd'
                    = concat (map (\<lambda>s. map (Pair s) [1..reach_count rd s]) ns)"
    if h: "ns \<noteq> []" "sorted_wrt (<) ns" "\<forall>r \<in> set rd. iseg r \<in> set ns"
      "\<forall>s \<in> set ns. 1 \<le> s \<and> (\<exists>r \<in> set rd. s \<le> iseg r)"
  proof -
    let ?rd' = "map2 (\<lambda>r v. r\<lparr>ireach := v\<rparr>) (sort_reaches rd) ?vs"
    have inc: "sorted_wrt (<) (period0_nsegs (segment_data st))" using h(2) assms(2) by simp
    have mem: "\<forall>r \<in> set rd. iseg r \<in> set (period0_nsegs (segment_data st))"
      using h(3) assms(2) by simp
    have rng: "\<forall>s \<in> set (period0_nsegs (segment_data st)).
                 1 \<le> s \<and> (\<exists>r \<in> set rd. s \<le> iseg r)"
      using h(4) assms(2) by simp
    have ne: "period0_nsegs (segment_data st) \<noteq> []" using h(1) assms(2) by simp
    have t: "reset_reaches_table rd (segment_data st) = Inr ?rd'"
      using reset_reaches_table_blocks(1) [OF inc mem rng ne] assms(2) by simp
    have b: "map (\<lambda>r. (iseg r, ireach r)) ?rd'
               = concat (map (\<lambda>s. map (Pair s) [1..reach_count rd s]) ns)"
      using reset_reaches_table_blocks(2) [OF inc mem rng ne] assms(2) by simp
    have lv: "length ?vs = length rd"
      using reset_reaches_table_blocks(3) [OF inc mem rng ne] assms(2) by simp
    have lrd: "length ?rd' = length rd" using lv by simp
    have other: "map (\<lambda>r. r\<lparr>ireach := 0\<rparr>) ?rd' = map (\<lambda>r. r\<lparr>ireach := 0\<rparr>) (sort_reaches rd)"
      using lrd by (auto simp: list_eq_iff_nth_eq)
    show ?thesis
      using t b lrd other by (intro exI [of _ ?rd']) (simp add: e)
  qed
  show ?thesis using c1 c2 c3 c4 c5 c6 by blast
qed

theorem reset_reaches_outcomes_witness:
  "reset_reaches (example_state gappy [seg 3 0, seg 5 3])
     = Inr (example_state
         [(mk_reach 3 13 3 7 100 80 0)\<lparr>ireach := 1\<rparr>, (mk_reach 2 12 5 2 100 90 0)\<lparr>ireach := 1\<rparr>,
          (mk_reach 1 11 5 4 100 100 0)\<lparr>ireach := 2\<rparr>]
         [seg 3 0, seg 5 3])"
proof -
  let ?st = "example_state gappy [seg 3 0, seg 5 3]"
  have a: "reach_data ?st = gappy" by (simp add: example_state_def)
  have b: "period0_nsegs (segment_data ?st) = [3, 5]"
    by (simp add: example_state_def period0_nsegs_def seg_def)
  have c: "reach_count gappy 3 = 1" "reach_count gappy 5 = 2"
    by (simp_all add: reach_count_def gappy_def mk_reach_def)
  have h: "[3, 5::int] \<noteq> [] \<and> (\<forall>r \<in> set gappy. 0 \<le> iseg r)
          \<and> (\<forall>s \<in> set [3, 5]. 1 \<le> s \<and> (\<exists>r \<in> set gappy. s \<le> iseg r))
          \<and> sum_list (map (reach_count gappy) [3, 5]) = int (length gappy)"
    by (simp add: c) (simp add: gappy_def mk_reach_def)
  have s: "sort_reaches gappy =
      [mk_reach 3 13 3 7 100 80 0, mk_reach 2 12 5 2 100 90 0, mk_reach 1 11 5 4 100 100 0]"
    by (simp add: sort_reaches_def gappy_def mk_reach_def)
  from reset_reaches_outcomes [OF a b] h
  have "reset_reaches ?st =
      Inr (?st\<lparr>reach_data := map2 (\<lambda>r v. r\<lparr>ireach := v\<rparr>) (sort_reaches gappy)
             (concat (map (\<lambda>s. [1..reach_count gappy s]) [3, 5]))\<rparr>)"
    by blast
  then show ?thesis
    by (simp add: s c example_state_def upto_rec1)
qed

text \<open>
  The claim as stated fails where the segment table has a segment beyond the largest
  \<open>iseg\<close>: reaches of segment 1 only, segments 1 and 2. The lookup of the count of
  segment 2 raises \<open>KeyError\<close> outside the \<open>try\<close>.
\<close>

theorem reset_reaches_raises_counterexample:
  "reset_reaches (example_state single_reach [seg 1 0, seg 2 0]) = Inl KeyError
   \<and> map iseg single_reach = [1]
   \<and> period0_nsegs [seg 1 0, seg 2 0] = [1, 2]"
  by code_simp

section \<open>Properties of set\_outreaches\<close>










section \<open>Properties of reset\_segments\<close>






lemma sort_segments_set [simp]: "set (sort_segments sd) = set sd"
  by (simp add: sort_segments_def)

lemma sort_segments_length [simp]: "length (sort_segments sd) = length sd"
  by (simp add: sort_segments_def)




lemma relabel_Some: "map_of r x = Some y \<Longrightarrow> relabel r x = y"
  by (simp add: relabel_def)


















subsection \<open>The numbering modelled from the spec\<close>

lemma find_Some_mem: "find P xs = Some x \<Longrightarrow> x \<in> set xs \<and> P x"
  by (induction xs) (auto split: if_splits)

lemma topo_order_Cons:
  assumes "topo_order edges fuel remaining = Inr order" "remaining \<noteq> []"
  obtains x rest n where "fuel = Suc n" "order = x # rest" "x \<in> set remaining"
    "\<not> list_ex (\<lambda>(m, d). d = x \<and> m \<in> set remaining) edges"
    "topo_order edges n (removeAll x remaining) = Inr rest"
proof (cases fuel)
  case 0
  with assms show ?thesis by (simp split: if_splits)
next
  case (Suc n)
  with assms obtain x rest where
    f: "find (\<lambda>x. \<not> list_ex (\<lambda>(m, d). d = x \<and> m \<in> set remaining) edges) remaining = Some x"
    and r: "topo_order edges n (removeAll x remaining) = Inr rest" and o: "order = x # rest"
    by (auto simp: bind_Inr_iff split: option.splits if_splits)
  from find_Some_mem [OF f] Suc r o that show ?thesis by blast
qed

lemma topo_order_perm:
  assumes "topo_order edges fuel remaining = Inr order" "distinct remaining"
  shows "set order = set remaining \<and> distinct order"
  using assms
proof (induction fuel arbitrary: remaining order)
  case 0
  then show ?case by (auto split: if_splits)
next
  case (Suc n)
  show ?case
  proof (cases "remaining = []")
    case True
    with Suc.prems show ?thesis by simp
  next
    case False
    from Suc.prems(1) False obtain x rest where
      x: "order = x # rest" "x \<in> set remaining"
      and r: "topo_order edges n (removeAll x remaining) = Inr rest"
      by (rule topo_order_Cons) auto
    have "distinct (removeAll x remaining)" using Suc.prems(2) by (simp add: distinct_removeAll)
    from Suc.IH [OF r this] x show ?thesis by auto
  qed
qed

text \<open>Numbering a topological order from \<open>k\<close> on puts every id before its destination.\<close>

lemma topo_order_increasing:
  assumes "topo_order edges fuel remaining = Inr order" "distinct remaining"
    and "(m, d) \<in> set edges" "m \<in> set remaining" "d \<in> set remaining"
  shows "\<exists>a b. map_of (zip order [k..k + int (length order) - 1]) m = Some a
           \<and> map_of (zip order [k..k + int (length order) - 1]) d = Some b \<and> a < b"
  using assms
proof (induction fuel arbitrary: remaining order k)
  case 0
  then show ?case by (auto split: if_splits)
next
  case (Suc n)
  from Suc.prems(4) have ne: "remaining \<noteq> []" by auto
  from Suc.prems(1) ne obtain x rest where
    o: "order = x # rest" and x: "x \<in> set remaining"
    and free: "\<not> list_ex (\<lambda>(m, d). d = x \<and> m \<in> set remaining) edges"
    and r: "topo_order edges n (removeAll x remaining) = Inr rest"
    by (rule topo_order_Cons) auto
  have dr: "distinct (removeAll x remaining)" using Suc.prems(2) by (simp add: distinct_removeAll)
  from topo_order_perm [OF r dr] have sr: "set rest = set remaining - {x}" "distinct rest"
    by auto
  have dx: "d \<noteq> x" using free Suc.prems(3,4) by (auto simp: list_ex_iff)
  let ?ns = "[k..k + int (length order) - 1]"
  let ?ns' = "[k + 1..k + 1 + int (length rest) - 1]"
  have "?ns = k # ?ns'"
    unfolding o by (simp add: upto_rec1 [of k] add.commute add.left_commute)
  then have "zip order ?ns = (x, k) # zip rest ?ns'" by (simp only: o zip_Cons_Cons)
  then have mo: "map_of (zip order ?ns) y = (if y = x then Some k else map_of (zip rest ?ns') y)"
    for y by (simp only: map_of.simps fst_conv snd_conv fun_upd_apply)
  have later: "\<exists>b. map_of (zip rest [k + 1..k + 1 + int (length rest) - 1]) y = Some b \<and> k < b"
    if "y \<in> set rest" for y
  proof -
    from that obtain i where i: "i < length rest" "rest ! i = y" by (auto simp: in_set_conv_nth)
    have l: "length [k + 1..k + 1 + int (length rest) - 1] = length rest" by simp
    have "map_of (zip rest [k + 1..k + 1 + int (length rest) - 1]) (rest ! i)
            = Some ([k + 1..k + 1 + int (length rest) - 1] ! i)"
      using sr(2) i(1) l by (intro map_of_zip_nth) simp_all
    moreover have "[k + 1..k + 1 + int (length rest) - 1] ! i = k + 1 + int i"
      using i(1) by simp
    ultimately show ?thesis using i(2) by auto
  qed
  show ?case
  proof (cases "m = x")
    case True
    have "d \<in> set rest" using sr(1) Suc.prems(5) dx by simp
    from later [OF this] obtain b where
      b: "map_of (zip rest [k + 1..k + 1 + int (length rest) - 1]) d = Some b" "k < b" by blast
    show ?thesis using True dx b by (simp only: mo) auto
  next
    case False
    have "m \<in> set (removeAll x remaining)" "d \<in> set (removeAll x remaining)"
      using False dx Suc.prems(4,5) by simp_all
    from Suc.IH [OF r dr Suc.prems(3) this, of "k + 1"]
    show ?thesis using False dx by (simp only: mo) auto
  qed
qed


text \<open>
  The numbering modelled from the spec meets the contract on every table whose segment
  numbers are positive and whose positive destinations are segment numbers.
\<close>

lemma renumber_segments_spec_contract:
  assumes ok: "renumber_segments_spec ids dests = Inr r"
    and pos: "\<forall>i \<in> set ids. 0 < i"
    and known: "\<forall>d \<in> set dests. 0 < d \<longrightarrow> d \<in> set ids"
  shows "renumbering ids dests r"
proof -
  let ?sinks = "filter (\<lambda>d. d \<le> 0) (remdups (0 # dests))"
  from ok obtain order where
    t: "topo_order (zip ids dests) (length (remdups ids)) (remdups ids) = Inr order"
    and r: "r = zip order [1..int (length order)] @ map (\<lambda>d. (d, d)) ?sinks"
    by (auto simp: renumber_segments_spec_def Let_def bind_Inr_iff)
  let ?ns = "[1..int (length order)]"
  have d: "distinct (remdups ids)" by simp
  from topo_order_perm [OF t d] have so: "set order = set ids" and dor: "distinct order"
    by simp_all
  have n: "length order = card (set ids)"
    using distinct_card [OF dor] so by simp
  have ln: "length ?ns = length order" by simp
  have look: "map_of r (order ! i) = Some (1 + int i)" if "i < length order" for i
  proof -
    have "map_of (zip order ?ns) (order ! i) = Some (?ns ! i)"
      using dor that ln by (intro map_of_zip_nth) simp_all
    moreover have "?ns ! i = 1 + int i" using that by simp
    ultimately show ?thesis by (simp add: r map_add_def)
  qed
  have inj: "inj_on (map_of r) (set ids)"
  proof (rule inj_onI)
    fix x y assume "x \<in> set ids" "y \<in> set ids" and e: "map_of r x = map_of r y"
    then obtain i j where i: "i < length order" "order ! i = x"
      and j: "j < length order" "order ! j = y"
      unfolding so [symmetric] by (auto simp: in_set_conv_nth)
    from e look [OF i(1)] look [OF j(1)] i(2) j(2) have "i = j" by simp
    with i(2) j(2) show "x = y" by simp
  qed
  have img: "map_of r ` set ids = Some ` {1..int (card (set ids))}"
  proof (rule set_eqI)
    fix v
    show "(v \<in> map_of r ` set ids) = (v \<in> Some ` {1..int (card (set ids))})"
    proof
      assume "v \<in> map_of r ` set ids"
      then obtain x where "x \<in> set order" "v = map_of r x" using so by auto
      then obtain i where i: "i < length order" "order ! i = x" by (auto simp: in_set_conv_nth)
      with look [OF i(1)] \<open>v = map_of r x\<close> have "v = Some (1 + int i)" by simp
      moreover have "1 + int i \<in> {1..int (card (set ids))}" using i(1) n by auto
      ultimately show "v \<in> Some ` {1..int (card (set ids))}" by blast
    next
      assume "v \<in> Some ` {1..int (card (set ids))}"
      then obtain a where a: "v = Some a" "1 \<le> a" "a \<le> int (length order)" using n by auto
      let ?i = "nat (a - 1)"
      have i: "?i < length order" "1 + int ?i = a" using a(2,3) by auto
      from look [OF i(1)] i(2) a(1) have "map_of r (order ! ?i) = v" by simp
      moreover have "order ! ?i \<in> set ids" using i(1) so by auto
      ultimately show "v \<in> map_of r ` set ids" by blast
    qed
  qed
  have mono: "\<exists>a b. map_of r i = Some a \<and> map_of r d = Some b \<and> a < b"
    if e: "(i, d) \<in> set (zip ids dests)" and p: "0 < d" for i d
  proof -
    have "i \<in> set ids" "d \<in> set dests" using e by (auto dest: set_zip_leftD set_zip_rightD)
    with known p have m: "i \<in> set (remdups ids)" "d \<in> set (remdups ids)" by auto
    from topo_order_increasing [OF t d e m, of 1]
    obtain a b where "map_of (zip order ?ns) i = Some a" "map_of (zip order ?ns) d = Some b"
      "a < b" by auto
    then show ?thesis by (auto simp: r map_add_def)
  qed
  have sink: "v = x" if "(x, v) \<in> set r" "x \<le> 0" for x v
  proof -
    from that(1) have "(x, v) \<in> set (zip order ?ns) \<or> (x, v) \<in> set (map (\<lambda>d. (d, d)) ?sinks)"
      by (simp add: r)
    then show ?thesis
    proof
      assume "(x, v) \<in> set (zip order ?ns)"
      then have "x \<in> set ids" using so by (auto dest: set_zip_leftD)
      with pos that(2) show ?thesis by auto
    next
      assume "(x, v) \<in> set (map (\<lambda>d. (d, d)) ?sinks)"
      then show ?thesis by auto
    qed
  qed
  show ?thesis
    unfolding renumbering_def
  proof (intro conjI)
    show "inj_on (map_of r) (set ids)" by (fact inj)
    show "map_of r ` set ids = Some ` {1..int (card (set ids))}" by (fact img)
    show "\<forall>(i, d) \<in> set (zip ids dests). d > 0 \<longrightarrow>
            (\<exists>a b. map_of r i = Some a \<and> map_of r d = Some b \<and> a < b)"
      using mono by blast
    show "\<forall>(d, v) \<in> set r. d \<le> 0 \<longrightarrow> v = d"
      using sink by blast
  qed
qed

section \<open>Properties of to\_riv\<close>


lemma drop_in_sfr_caches:
  "priv_segment_routing (drop_in_sfr C st) = priv_segment_routing st"
  "priv_routing (drop_in_sfr C st) = priv_routing st"
  "priv_rno_routing (drop_in_sfr C st) = priv_rno_routing st"
  "priv_paths (drop_in_sfr C st) = priv_paths st"
  "priv_reach_paths (drop_in_sfr C st) = priv_reach_paths st"
  by (simp_all add: drop_in_sfr_def Let_def)









end
